theory Spec2Isabelle
  imports Complex_Main
begin

section \<open>Configuration constants (config.js)\<close>

definition TOTAL_NUMBERS :: nat where
  "TOTAL_NUMBERS = 45"

definition MAIN_NUMBERS_COUNT :: nat where
  "MAIN_NUMBERS_COUNT = 6"

definition TOTAL_DRAW_COUNT :: nat where
  "TOTAL_DRAW_COUNT = 7"

definition SIM_EXTRACTION_INTERVAL :: real where
  "SIM_EXTRACTION_INTERVAL = 2000"

definition SIM_CANVAS_WIDTH :: real where
  "SIM_CANVAS_WIDTH = 600"

definition SIM_CANVAS_HEIGHT :: real where
  "SIM_CANVAS_HEIGHT = 400"

definition SIM_DRUM_RADIUS :: real where
  "SIM_DRUM_RADIUS = 180"

definition SIM_SUCTION_RADIUS :: real where
  "SIM_SUCTION_RADIUS = 30"

definition ADAPTIVE_DECAY_RATE :: real where
  "ADAPTIVE_DECAY_RATE = 96 / 100"

definition ADAPTIVE_REWARD :: real where
  "ADAPTIVE_REWARD = 1"

definition WEIGHTED_POWER :: nat where
  "WEIGHTED_POWER = 1"

definition ADAPTIVE_POWER :: nat where
  "ADAPTIVE_POWER = 10"

section \<open>Number generation algorithms\<close>

text \<open>
  Lottery numbers are natural numbers.  A JavaScript array slot that may hold
  \<^verbatim>\<open>undefined\<close> (an out-of-range read such as \<^verbatim>\<open>pool[index]\<close>) or \<^verbatim>\<open>NaN\<close> is a
  \<open>nat option\<close>, with \<open>None\<close> for the missing value.  Floating-point weights are
  idealised as reals.  A random source is the sequence of values its successive calls
  return: \<open>rng k\<close> is the value of the \<open>k\<close>-th call made by the function under
  consideration.

  An object whose keys are the numbers \<open>1..45\<close> is a map \<open>nat \<rightharpoonup> 'a\<close>;
  \<^verbatim>\<open>Object.entries\<close> enumerates such integer keys in ascending order, and
  \<^verbatim>\<open>parseInt\<close> reads the key back as the number it was (keys are array indices, that
  is, integers below \<open>2\<^sup>3\<^sup>2 - 1\<close>, as lottery numbers are).
\<close>

type_synonym 'a numobj = "nat \<rightharpoonup> 'a"

definition entriesOf :: "'a numobj \<Rightarrow> (nat \<times> 'a) list" where
  "entriesOf obj =
     concat (map (\<lambda>k. case obj k of None \<Rightarrow> [] | Some v \<Rightarrow> [(k, v)]) [1..<Suc TOTAL_NUMBERS])"

subsection \<open>createPoolAndPick\<close>

text \<open>\<^verbatim>\<open>Math.round\<close> rounds to the nearest integer, halves towards plus infinity.\<close>

definition mathRound :: "real \<Rightarrow> int" where
  "mathRound x = \<lfloor>x + 1 / 2\<rfloor>"

text \<open>
  The pool: every entry \<open>(num, weight)\<close> pushes \<open>num\<close> exactly
  \<open>Math.round(Math.pow(weight, power) * 10)\<close> times (not at all when that count is
  zero or negative).
\<close>

definition buildPool :: "(nat \<times> real) list \<Rightarrow> nat \<Rightarrow> nat list" where
  "buildPool weights pwr =
     concat (map (\<lambda>(num, weight). replicate (nat (mathRound (weight ^ pwr * 10))) num) weights)"

text \<open>\<^verbatim>\<open>pool[Math.floor(randomVal * pool.length)]\<close>; a read outside the array is \<^verbatim>\<open>undefined\<close>.\<close>

definition poolAt :: "nat list \<Rightarrow> real \<Rightarrow> nat option" where
  "poolAt pool randomVal =
     (let index = \<lfloor>randomVal * real (length pool)\<rfloor>
      in if 0 \<le> index \<and> index < int (length pool) then Some (pool ! nat index) else None)"

text \<open>
  The \<^verbatim>\<open>while (result.length < CONFIG.TOTAL_DRAW_COUNT)\<close> loop has no bound of its own.
  The model counts its iterations with fuel: \<open>None\<close> says that the loop is still
  running when the fuel is used up, \<open>Some result\<close> that it has returned \<open>result\<close>.
\<close>

fun pickLoop :: "nat \<Rightarrow> (nat \<Rightarrow> real) \<Rightarrow> nat \<Rightarrow> nat list \<Rightarrow> nat option list \<Rightarrow> nat option list option" where
  "pickLoop 0 rng k pool result =
     (if length result < TOTAL_DRAW_COUNT then None else Some result)"
| "pickLoop (Suc fuel) rng k pool result =
     (if length result < TOTAL_DRAW_COUNT
      then (let num = poolAt pool (rng k)
            in pickLoop fuel rng (Suc k) pool (if num \<in> set result then result else result @ [num]))
      else Some result)"

definition createPoolAndPick :: "nat \<Rightarrow> (nat \<times> real) list \<Rightarrow> nat \<Rightarrow> (nat \<Rightarrow> real) \<Rightarrow> nat option list option" where
  "createPoolAndPick fuel weights pwr rng = pickLoop fuel rng 0 (buildPool weights pwr) []"

subsection \<open>getWeightedNumbers\<close>

text \<open>
  A history is an array whose entries should be arrays of numbers; the code tests each
  entry with \<^verbatim>\<open>Array.isArray\<close> and skips the others.
\<close>

datatype entry = Draw "nat list" | NotArray

definition initObj :: "'a \<Rightarrow> 'a numobj" where
  "initObj v = (\<lambda>i. if 1 \<le> i \<and> i \<le> TOTAL_NUMBERS then Some v else None)"

text \<open>\<^verbatim>\<open>if (frequency[num]) frequency[num] += 1\<close>: a missing key and a zero count are falsy.\<close>

definition bumpFrequency :: "nat numobj \<Rightarrow> nat \<Rightarrow> nat numobj" where
  "bumpFrequency frequency num =
     (case frequency num of
        None \<Rightarrow> frequency
      | Some c \<Rightarrow> if c \<noteq> 0 then frequency(num \<mapsto> c + 1) else frequency)"

definition weightedFrequency :: "entry list \<Rightarrow> nat numobj" where
  "weightedFrequency winningNumbers =
     fold (\<lambda>draw frequency.
             case draw of
               Draw nums \<Rightarrow> fold (\<lambda>num f. bumpFrequency f num) nums frequency
             | NotArray \<Rightarrow> frequency)
          winningNumbers (initObj 1)"

definition getWeightedNumbers :: "nat \<Rightarrow> (nat \<Rightarrow> real) \<Rightarrow> entry list \<Rightarrow> nat option list option" where
  "getWeightedNumbers fuel rng winningNumbers =
     createPoolAndPick fuel (map (\<lambda>(k, c). (k, real c)) (entriesOf (weightedFrequency winningNumbers)))
       WEIGHTED_POWER rng"

text \<open>The number of times \<open>n\<close> occurs in the array entries of a history.\<close>

fun occurrences :: "nat \<Rightarrow> entry list \<Rightarrow> nat" where
  "occurrences n [] = 0"
| "occurrences n (Draw nums # rest) = count_list nums n + occurrences n rest"
| "occurrences n (NotArray # rest) = occurrences n rest"

subsection \<open>getAdaptiveNumbers\<close>

text \<open>
  The module-level caches: \<^verbatim>\<open>cachedAdaptiveWeights\<close> (initially \<^verbatim>\<open>null\<close>),
  \<^verbatim>\<open>cachedAdaptiveHistoryLength\<close> (initially 0) and \<^verbatim>\<open>cachedTransitions\<close>
  (initially \<^verbatim>\<open>null\<close>).  The inner objects of the transition table are association
  lists in property order, which for integer keys is ascending.
\<close>

type_synonym transitions = "nat \<rightharpoonup> (nat \<times> nat) list"

record caches =
  cachedAdaptiveWeights :: "real numobj option"
  cachedAdaptiveHistoryLength :: nat
  cachedTransitions :: "transitions option"

definition initialCaches :: caches where
  "initialCaches =
     \<lparr>cachedAdaptiveWeights = None, cachedAdaptiveHistoryLength = 0, cachedTransitions = None\<rparr>"

definition RECENT_LIMIT :: nat where
  "RECENT_LIMIT = 100"

text \<open>\<^verbatim>\<open>for (w = 1; w <= 45; w++) weights[w] *= CONFIG.ADAPTIVE_DECAY_RATE\<close>\<close>

definition decayAll :: "real numobj \<Rightarrow> real numobj" where
  "decayAll weights =
     (\<lambda>w. if 1 \<le> w \<and> w \<le> TOTAL_NUMBERS
          then map_option (\<lambda>v. v * ADAPTIVE_DECAY_RATE) (weights w) else weights w)"

text \<open>\<^verbatim>\<open>if (weights[num] !== undefined) weights[num] += CONFIG.ADAPTIVE_REWARD\<close>\<close>

definition rewardNum :: "real numobj \<Rightarrow> nat \<Rightarrow> real numobj" where
  "rewardNum weights num =
     (case weights num of None \<Rightarrow> weights | Some v \<Rightarrow> weights(num \<mapsto> v + ADAPTIVE_REWARD))"

definition adaptiveStep :: "entry \<Rightarrow> real numobj \<Rightarrow> real numobj" where
  "adaptiveStep draw weights =
     (case draw of
        NotArray \<Rightarrow> weights
      | Draw nums \<Rightarrow> fold (\<lambda>num w. rewardNum w num) nums (decayAll weights))"

text \<open>
  \<^verbatim>\<open>history = winningNumbers.slice(0, RECENT_LIMIT)\<close>, walked from its last index down
  to index 0.
\<close>

definition adaptiveWeights :: "entry list \<Rightarrow> real numobj" where
  "adaptiveWeights winningNumbers =
     fold adaptiveStep (rev (take RECENT_LIMIT winningNumbers)) (initObj 1)"

definition getAdaptiveNumbers ::
  "nat \<Rightarrow> caches \<Rightarrow> (nat \<Rightarrow> real) \<Rightarrow> entry list \<Rightarrow> caches \<times> nat option list option" where
  "getAdaptiveNumbers fuel st rng winningNumbers =
     (case cachedAdaptiveWeights st of
        Some cached \<Rightarrow>
          if cachedAdaptiveHistoryLength st = length winningNumbers
          then (st, createPoolAndPick fuel (entriesOf cached) ADAPTIVE_POWER rng)
          else (st\<lparr>cachedAdaptiveWeights := Some (adaptiveWeights winningNumbers),
                   cachedAdaptiveHistoryLength := length winningNumbers\<rparr>,
                createPoolAndPick fuel (entriesOf (adaptiveWeights winningNumbers)) ADAPTIVE_POWER rng)
      | None \<Rightarrow>
          (st\<lparr>cachedAdaptiveWeights := Some (adaptiveWeights winningNumbers),
              cachedAdaptiveHistoryLength := length winningNumbers\<rparr>,
           createPoolAndPick fuel (entriesOf (adaptiveWeights winningNumbers)) ADAPTIVE_POWER rng))"

subsection \<open>getSequentialNumbers\<close>

text \<open>
  \<^verbatim>\<open>transitions[current][next] = (transitions[current][next] || 0) + 1\<close> on the inner
  object, whose integer keys stay in ascending order.
\<close>

fun bumpCount :: "nat \<Rightarrow> (nat \<times> nat) list \<Rightarrow> (nat \<times> nat) list" where
  "bumpCount next [] = [(next, 1)]"
| "bumpCount next ((k, c) # rest) =
     (if next = k then (k, c + 1) # rest
      else if next < k then (next, 1) # (k, c) # rest
      else (k, c) # bumpCount next rest)"

text \<open>
  The Fisher-Yates shuffle \<^verbatim>\<open>for (i = sequence.length - 1; i > 0; i--)\<close> with
  \<^verbatim>\<open>j = Math.floor(Math.random() * (i + 1))\<close>.  \<open>mrand\<close> is the sequence of values
  of \<^verbatim>\<open>Math.random()\<close>, which lie in \<open>[0, 1)\<close>, so that \<open>j \<le> i\<close>; \<open>c\<close> counts the
  calls made so far.
\<close>

definition swapAt :: "nat \<Rightarrow> nat \<Rightarrow> 'a list \<Rightarrow> 'a list" where
  "swapAt i j xs = xs[i := xs ! j, j := xs ! i]"

fun shuffleLoop :: "nat \<Rightarrow> (nat \<Rightarrow> real) \<Rightarrow> nat \<Rightarrow> nat list \<Rightarrow> nat list \<times> nat" where
  "shuffleLoop 0 mrand c sequence = (sequence, c)"
| "shuffleLoop (Suc i) mrand c sequence =
     shuffleLoop i mrand (Suc c) (swapAt (Suc i) (nat \<lfloor>mrand c * real (Suc i + 1)\<rfloor>) sequence)"

text \<open>Record transitions \<^verbatim>\<open>sequence[i] -> sequence[i + 1]\<close> for \<^verbatim>\<open>i < sequence.length - 1\<close>.\<close>

fun recordTransitions :: "nat list \<Rightarrow> transitions \<Rightarrow> transitions" where
  "recordTransitions (current # next # rest) t =
     recordTransitions (next # rest)
       (t(current \<mapsto> bumpCount next (case t current of None \<Rightarrow> [] | Some inner \<Rightarrow> inner)))"
| "recordTransitions sequence t = t"

definition learnDraw :: "(nat \<Rightarrow> real) \<Rightarrow> entry \<Rightarrow> transitions \<times> nat \<Rightarrow> transitions \<times> nat" where
  "learnDraw mrand draw tc =
     (case draw of
        NotArray \<Rightarrow> tc
      | Draw nums \<Rightarrow>
          if length nums < 6 then tc
          else (let (sequence, c') = shuffleLoop (length nums - 1) mrand (snd tc) nums
                in (recordTransitions sequence (fst tc), c')))"

definition buildTransitions :: "(nat \<Rightarrow> real) \<Rightarrow> entry list \<Rightarrow> transitions" where
  "buildTransitions mrand history = fst (fold (learnDraw mrand) history (Map.empty, 0))"

text \<open>
  \<^verbatim>\<open>pickFromWeights\<close>: subtract the weights in entry order from \<open>r * totalWeight\<close> and
  return the first key at which the remainder is not positive; otherwise
  \<^verbatim>\<open>parseInt(Object.keys(weights)[0])\<close>, which is \<^verbatim>\<open>NaN\<close> for an object without keys.
\<close>

fun pickScan :: "(nat \<times> nat) list \<Rightarrow> real \<Rightarrow> nat option" where
  "pickScan [] randomWeight = None"
| "pickScan ((num, weight) # rest) randomWeight =
     (if randomWeight - real weight \<le> 0 then Some num
      else pickScan rest (randomWeight - real weight))"

definition pickFromWeights :: "(nat \<times> nat) list \<Rightarrow> real \<Rightarrow> nat option" where
  "pickFromWeights weights r =
     (case pickScan weights (r * real (sum_list (map snd weights))) of
        Some num \<Rightarrow> Some num
      | None \<Rightarrow> (case weights of [] \<Rightarrow> None | (num, weight) # rest \<Rightarrow> Some num))"

text \<open>\<^verbatim>\<open>available[Math.floor(r * available.length)]\<close> over the numbers not yet in \<open>result\<close>.\<close>

definition availableNumbers :: "nat option list \<Rightarrow> nat list" where
  "availableNumbers result = filter (\<lambda>i. Some i \<notin> set result) [1..<Suc TOTAL_NUMBERS]"

definition pickAvailable :: "nat option list \<Rightarrow> real \<Rightarrow> nat option" where
  "pickAvailable result r = poolAt (availableNumbers result) r"

text \<open>
  One turn of \<^verbatim>\<open>while (result.length < 6)\<close>: the learned pick when the current number
  has transitions to numbers not yet picked, and the fallback when \<^verbatim>\<open>nextNum\<close> is falsy
  (\<^verbatim>\<open>undefined\<close>, \<^verbatim>\<open>NaN\<close> or 0).  The result is the number pushed and the count of
  \<open>rng\<close> calls.
\<close>

definition learnedPick :: "transitions \<Rightarrow> (nat \<Rightarrow> real) \<Rightarrow> nat \<Rightarrow> nat option list \<Rightarrow> nat option \<Rightarrow> nat option \<times> nat" where
  "learnedPick t rng k result currentNum =
     (case currentNum of
        None \<Rightarrow> (None, k)
      | Some cur \<Rightarrow>
          (case t cur of
             None \<Rightarrow> (None, k)
           | Some inner \<Rightarrow>
               (let candidates = filter (\<lambda>(num, weight). Some num \<notin> set result) inner
                in if candidates \<noteq> [] then (pickFromWeights candidates (rng k), Suc k)
                   else (None, k))))"

definition nextPick :: "transitions \<Rightarrow> (nat \<Rightarrow> real) \<Rightarrow> nat \<Rightarrow> nat option list \<Rightarrow> nat option \<Rightarrow> nat option \<times> nat" where
  "nextPick t rng k result currentNum =
     (let (nextNum, k1) = learnedPick t rng k result currentNum
      in if nextNum = None \<or> nextNum = Some 0
         then (pickAvailable result (rng k1), Suc k1)
         else (nextNum, k1))"

function chainLoop :: "transitions \<Rightarrow> (nat \<Rightarrow> real) \<Rightarrow> nat \<Rightarrow> nat option list \<Rightarrow> nat option \<Rightarrow> nat option list \<times> nat" where
  "chainLoop t rng k result currentNum =
     (if length result < 6
      then (let (nextNum, k') = nextPick t rng k result currentNum
            in chainLoop t rng k' (result @ [nextNum]) nextNum)
      else (result, k))"
  by pat_completeness auto
termination
  by (relation "measure (\<lambda>(t, rng, k, result, currentNum). 6 - length result)") auto

text \<open>
  The draw once the transition table is at hand: the first number
  \<^verbatim>\<open>Math.floor(r * CONFIG.TOTAL_NUMBERS) + 1\<close> (a number of \<open>1..45\<close> for \<open>r\<close> in
  \<open>[0, 1)\<close>, the range of every random source), the chain, the bonus.
\<close>

definition sequentialDraw :: "transitions \<Rightarrow> (nat \<Rightarrow> real) \<Rightarrow> nat option list" where
  "sequentialDraw t rng =
     (let firstNum = nat (\<lfloor>rng 0 * real TOTAL_NUMBERS\<rfloor> + 1);
          (result, k) = chainLoop t rng 1 [Some firstNum] (Some firstNum)
      in result @ [pickAvailable result (rng k)])"

text \<open>
  \<^verbatim>\<open>getSequentialNumbers(rng)\<close> reads the global \<^verbatim>\<open>allWinningNumbers\<close> (\<open>None\<close> when it is
  not defined) and builds the table only \<^verbatim>\<open>if (!cachedTransitions)\<close>.
\<close>

definition getSequentialNumbers ::
  "caches \<Rightarrow> entry list option \<Rightarrow> (nat \<Rightarrow> real) \<Rightarrow> (nat \<Rightarrow> real) \<Rightarrow> caches \<times> nat option list" where
  "getSequentialNumbers st allWinningNumbers mrand rng =
     (case cachedTransitions st of
        Some t \<Rightarrow> (st, sequentialDraw t rng)
      | None \<Rightarrow>
          (let t = buildTransitions mrand (case allWinningNumbers of None \<Rightarrow> [] | Some h \<Rightarrow> h)
           in (st\<lparr>cachedTransitions := Some t\<rparr>, sequentialDraw t rng)))"

section \<open>Physics simulation (simulation.js)\<close>

subsection \<open>Numbers\<close>

text \<open>
  The simulation computes with floating-point numbers.  The model idealises them as
  real numbers and keeps the one special value on which control flow depends: \<^verbatim>\<open>NaN\<close>.
  Arithmetic with \<^verbatim>\<open>NaN\<close> gives \<^verbatim>\<open>NaN\<close>, every comparison with \<^verbatim>\<open>NaN\<close> is false,
  and \<open>0 / 0\<close> is \<^verbatim>\<open>NaN\<close>.  Rounding and overflow are not modelled.  A division of a
  non-zero number by zero (an infinity in JavaScript) is given as \<^verbatim>\<open>NaN\<close> too; the
  divisors of this program are distances, which vanish only together with their
  dividends, and sums of two masses.
\<close>

datatype jsnum = NaN | Fin real

instantiation jsnum :: "{plus, minus, uminus, times, inverse, abs, ord}"
begin

fun plus_jsnum :: "jsnum \<Rightarrow> jsnum \<Rightarrow> jsnum" where
  "plus_jsnum (Fin a) (Fin b) = Fin (a + b)"
| "plus_jsnum a b = NaN"

fun minus_jsnum :: "jsnum \<Rightarrow> jsnum \<Rightarrow> jsnum" where
  "minus_jsnum (Fin a) (Fin b) = Fin (a - b)"
| "minus_jsnum a b = NaN"

fun uminus_jsnum :: "jsnum \<Rightarrow> jsnum" where
  "uminus_jsnum (Fin a) = Fin (- a)"
| "uminus_jsnum NaN = NaN"

fun times_jsnum :: "jsnum \<Rightarrow> jsnum \<Rightarrow> jsnum" where
  "times_jsnum (Fin a) (Fin b) = Fin (a * b)"
| "times_jsnum a b = NaN"

fun divide_jsnum :: "jsnum \<Rightarrow> jsnum \<Rightarrow> jsnum" where
  "divide_jsnum (Fin a) (Fin b) = (if b = 0 then NaN else Fin (a / b))"
| "divide_jsnum a b = NaN"

definition inverse_jsnum :: "jsnum \<Rightarrow> jsnum" where
  "inverse_jsnum a = divide (Fin 1) a"

fun abs_jsnum :: "jsnum \<Rightarrow> jsnum" where
  "abs_jsnum (Fin a) = Fin \<bar>a\<bar>"
| "abs_jsnum NaN = NaN"

fun less_jsnum :: "jsnum \<Rightarrow> jsnum \<Rightarrow> bool" where
  "less_jsnum (Fin a) (Fin b) = (a < b)"
| "less_jsnum a b = False"

fun less_eq_jsnum :: "jsnum \<Rightarrow> jsnum \<Rightarrow> bool" where
  "less_eq_jsnum (Fin a) (Fin b) = (a \<le> b)"
| "less_eq_jsnum a b = False"

instance ..

end

text \<open>\<^verbatim>\<open>Math.sqrt\<close>, \<^verbatim>\<open>Math.sin\<close>, \<^verbatim>\<open>Math.cos\<close> and \<^verbatim>\<open>Math.atan2(dy, dx)\<close>.\<close>

fun jsqrt :: "jsnum \<Rightarrow> jsnum" where
  "jsqrt (Fin a) = (if a < 0 then NaN else Fin (sqrt a))"
| "jsqrt NaN = NaN"

fun jsin :: "jsnum \<Rightarrow> jsnum" where
  "jsin (Fin a) = Fin (sin a)"
| "jsin NaN = NaN"

fun jcos :: "jsnum \<Rightarrow> jsnum" where
  "jcos (Fin a) = Fin (cos a)"
| "jcos NaN = NaN"

fun jatan2 :: "jsnum \<Rightarrow> jsnum \<Rightarrow> jsnum" where
  "jatan2 (Fin dy) (Fin dx) = Fin (Arg (Complex dx dy))"
| "jatan2 dy dx = NaN"

text \<open>A number is falsy when it is 0 or \<^verbatim>\<open>NaN\<close>.\<close>

fun falsy :: "jsnum \<Rightarrow> bool" where
  "falsy (Fin a) = (a = 0)"
| "falsy NaN = True"

subsection \<open>Balls\<close>

text \<open>
  A ball, as the \<^verbatim>\<open>SimBall\<close> class and the object literal of the headless run have it.
  The fields \<^verbatim>\<open>id\<close>, \<^verbatim>\<open>x\<close> and \<^verbatim>\<open>y\<close> are named \<open>ball_id\<close>, \<open>ball_x\<close> and \<open>ball_y\<close>;
  the colour, which only the rendering reads, is left out.  \<open>rand\<close> is the sequence of
  values of \<^verbatim>\<open>Math.random()\<close>, all in \<open>[0, 1)\<close>, and a counter says how many of them
  have been consumed.
\<close>

record ball =
  ball_id :: nat
  ball_x :: jsnum
  ball_y :: jsnum
  vx :: jsnum
  vy :: jsnum
  radius :: jsnum
  mass :: jsnum
  elasticity :: jsnum
  friction :: jsnum

definition removeAt :: "nat \<Rightarrow> 'a list \<Rightarrow> 'a list" where
  "removeAt i xs = take i xs @ drop (Suc i) xs"

subsection \<open>runHeadlessSimulation\<close>

definition drumR :: real where
  "drumR = SIM_DRUM_RADIUS"

definition centerX :: real where
  "centerX = SIM_CANVAS_WIDTH / 2"

definition centerY :: real where
  "centerY = SIM_CANVAS_HEIGHT / 2"

definition STEPS_PER_EXTRACTION :: nat where
  "STEPS_PER_EXTRACTION = 30"

definition headlessTurbulence :: real where
  "headlessTurbulence = 5"

definition headlessGravity :: real where
  "headlessGravity = 3 / 10"

text \<open>Setup: ball \<open>i\<close> consumes four random values (angle, r, vx, vy).\<close>

definition headlessBall :: "(nat \<Rightarrow> real) \<Rightarrow> nat \<Rightarrow> nat \<Rightarrow> ball" where
  "headlessBall rand c i =
     (let angle = rand c * pi * 2;
          r = rand (c + 1) * (drumR - 20)
      in \<lparr>ball_id = i,
          ball_x = Fin (centerX + cos angle * r),
          ball_y = Fin (centerY + sin angle * r),
          vx = Fin ((rand (c + 2) - 1 / 2) * 15),
          vy = Fin ((rand (c + 3) - 1 / 2) * 15),
          radius = Fin 10,
          mass = Fin 1,
          elasticity = Fin (85 / 100),
          friction = Fin (99 / 100)\<rparr>)"

definition headlessSetup :: "(nat \<Rightarrow> real) \<Rightarrow> ball list" where
  "headlessSetup rand = map (\<lambda>i. headlessBall rand (4 * (i - 1)) i) [1..<Suc TOTAL_NUMBERS]"

text \<open>The body of \<^verbatim>\<open>balls.forEach(b => ...)\<close>, statement by statement.\<close>

definition applyGravity :: "jsnum \<Rightarrow> ball \<Rightarrow> ball" where
  "applyGravity g b = b\<lparr>vy := vy b + g\<rparr>"

definition headlessJet :: "(nat \<Rightarrow> real) \<Rightarrow> ball \<Rightarrow> nat \<Rightarrow> ball \<times> nat" where
  "headlessJet rand b c =
     (if \<bar>ball_x b - Fin centerX\<bar> < Fin 30 \<and> ball_y b > Fin centerY + Fin drumR - Fin 50
      then (let b1 = b\<lparr>vy := vy b - Fin headlessTurbulence * Fin (8 / 10)\<rparr>
            in (b1\<lparr>vx := vx b1 + (Fin (rand c) - Fin (1 / 2)) * Fin 2\<rparr>, Suc c))
      else (b, c))"

definition applyFriction :: "ball \<Rightarrow> ball" where
  "applyFriction b = (let b1 = b\<lparr>vx := vx b * friction b\<rparr> in b1\<lparr>vy := vy b1 * friction b1\<rparr>)"

definition moveBall :: "ball \<Rightarrow> ball" where
  "moveBall b = (let b1 = b\<lparr>ball_x := ball_x b + vx b\<rparr> in b1\<lparr>ball_y := ball_y b1 + vy b1\<rparr>)"

definition headlessWall :: "ball \<Rightarrow> ball" where
  "headlessWall b =
     (let dx = ball_x b - Fin centerX;
          dy = ball_y b - Fin centerY;
          dist = jsqrt (dx * dx + dy * dy)
      in if dist + radius b > Fin drumR
         then (let nx = dx / dist;
                   ny = dy / dist;
                   overlap = dist + radius b - Fin drumR;
                   b1 = b\<lparr>ball_x := ball_x b - nx * overlap\<rparr>;
                   b2 = b1\<lparr>ball_y := ball_y b1 - ny * overlap\<rparr>;
                   dot = vx b2 * nx + vy b2 * ny;
                   b3 = b2\<lparr>vx := (vx b2 - Fin 2 * dot * nx) * elasticity b2\<rparr>
               in b3\<lparr>vy := (vy b3 - Fin 2 * dot * ny) * elasticity b3\<rparr>)
         else b)"

definition headlessUpdate :: "(nat \<Rightarrow> real) \<Rightarrow> ball \<Rightarrow> nat \<Rightarrow> ball \<times> nat" where
  "headlessUpdate rand b c =
     (let (b1, c') = headlessJet rand (applyGravity (Fin headlessGravity) b) c
      in (headlessWall (moveBall (applyFriction b1)), c'))"

fun headlessUpdateAll :: "(nat \<Rightarrow> real) \<Rightarrow> ball list \<Rightarrow> nat \<Rightarrow> ball list \<times> nat" where
  "headlessUpdateAll rand [] c = ([], c)"
| "headlessUpdateAll rand (b # bs) c =
     (let (b', c1) = headlessUpdate rand b c;
          (bs', c2) = headlessUpdateAll rand bs c1
      in (b' # bs', c2))"

text \<open>
  The collision of one pair \<open>b1 = balls[i]\<close>, \<open>b2 = balls[j]\<close>: the normal velocity
  components are exchanged (``equal mass exchange''), then the balls are separated.
\<close>

definition headlessCollide :: "ball \<Rightarrow> ball \<Rightarrow> ball \<times> ball" where
  "headlessCollide b1 b2 =
     (let dx = ball_x b2 - ball_x b1;
          dy = ball_y b2 - ball_y b1;
          distSq = dx * dx + dy * dy;
          radSum = radius b1 + radius b2
      in if distSq < radSum * radSum
         then (let dist = jsqrt distSq;
                   nx = dx / dist;
                   ny = dy / dist;
                   v1n = vx b1 * nx + vy b1 * ny;
                   v2n = vx b2 * nx + vy b2 * ny;
                   v1nFinal = v2n;
                   v2nFinal = v1n;
                   tx = - ny;
                   ty = nx;
                   v1t = vx b1 * tx + vy b1 * ty;
                   v2t = vx b2 * tx + vy b2 * ty;
                   overlap = (radSum - dist) / Fin 2
               in (b1\<lparr>vx := v1nFinal * nx + v1t * tx,
                      vy := v1nFinal * ny + v1t * ty,
                      ball_x := ball_x b1 - nx * overlap,
                      ball_y := ball_y b1 - ny * overlap\<rparr>,
                   b2\<lparr>vx := v2nFinal * nx + v2t * tx,
                      vy := v2nFinal * ny + v2t * ty,
                      ball_x := ball_x b2 + nx * overlap,
                      ball_y := ball_y b2 + ny * overlap\<rparr>))
         else (b1, b2))"

text \<open>
  The nested loops \<^verbatim>\<open>for (i = 0; i < n; i++) for (j = i + 1; j < n; j++)\<close> update the
  two array slots in place; the length of the array does not change.
\<close>

definition collideAt :: "(ball \<Rightarrow> ball \<Rightarrow> ball \<times> ball) \<Rightarrow> nat \<Rightarrow> nat \<Rightarrow> ball list \<Rightarrow> ball list" where
  "collideAt resolve i j bs = (let (b1, b2) = resolve (bs ! i) (bs ! j) in bs[i := b1, j := b2])"

definition allPairs :: "(ball \<Rightarrow> ball \<Rightarrow> ball \<times> ball) \<Rightarrow> ball list \<Rightarrow> ball list" where
  "allPairs resolve bs =
     fold (\<lambda>i bs1. fold (collideAt resolve i) [Suc i..<length bs] bs1) [0..<length bs] bs"

definition headlessStep :: "(nat \<Rightarrow> real) \<Rightarrow> ball list \<times> nat \<Rightarrow> ball list \<times> nat" where
  "headlessStep rand bc =
     (let (bs, c) = headlessUpdateAll rand (fst bc) (snd bc) in (allPairs headlessCollide bs, c))"

text \<open>
  The extraction attempt: the index of the first ball with
  \<^verbatim>\<open>dx * dx + dy * dy < SIM_SUCTION_RADIUS * SIM_SUCTION_RADIUS\<close>, where
  \<^verbatim>\<open>suctionY = center.y - drumR + 20\<close>; \<open>None\<close> stands for \<^verbatim>\<open>candidateIdx = -1\<close>.
\<close>

definition inSuctionSq :: "ball \<Rightarrow> bool" where
  "inSuctionSq b =
     (let dx = ball_x b - Fin centerX;
          dy = ball_y b - Fin (centerY - drumR + 20)
      in dx * dx + dy * dy < Fin (SIM_SUCTION_RADIUS * SIM_SUCTION_RADIUS))"

fun firstIndex :: "('a \<Rightarrow> bool) \<Rightarrow> 'a list \<Rightarrow> nat option" where
  "firstIndex P [] = None"
| "firstIndex P (b # bs) = (if P b then Some 0 else map_option Suc (firstIndex P bs))"

record headless =
  balls :: "ball list"
  selected :: "nat list"
  calls :: nat

definition extractionAttempt :: "headless \<Rightarrow> headless" where
  "extractionAttempt st =
     (case firstIndex inSuctionSq (balls st) of
        Some candidateIdx \<Rightarrow>
          st\<lparr>selected := selected st @ [ball_id (balls st ! candidateIdx)],
             balls := removeAt candidateIdx (balls st)\<rparr>
      | None \<Rightarrow> st)"

text \<open>
  The safety break \<^verbatim>\<open>if (selected.length < CONFIG.TOTAL_DRAW_COUNT &&
  STEPS_PER_EXTRACTION * 1000 > 1000000) break;\<close>
\<close>

definition safetyThreshold :: bool where
  "safetyThreshold = (STEPS_PER_EXTRACTION * 1000 > 1000000)"

definition safetyBreak :: "nat list \<Rightarrow> bool" where
  "safetyBreak sel = (length sel < TOTAL_DRAW_COUNT \<and> safetyThreshold)"

definition headlessCycle :: "(nat \<Rightarrow> real) \<Rightarrow> headless \<Rightarrow> headless" where
  "headlessCycle rand st =
     (let (bs, c) = (headlessStep rand ^^ STEPS_PER_EXTRACTION) (balls st, calls st)
      in extractionAttempt (st\<lparr>balls := bs, calls := c\<rparr>))"

text \<open>
  The main loop \<^verbatim>\<open>while (selected.length < CONFIG.TOTAL_DRAW_COUNT)\<close> has no bound of its
  own.  Fuel counts its turns; \<open>None\<close> says that the loop is still running when the
  fuel is used up, \<open>Some st\<close> that it was left in state \<open>st\<close>.
\<close>

fun headlessLoop :: "nat \<Rightarrow> (nat \<Rightarrow> real) \<Rightarrow> headless \<Rightarrow> headless option" where
  "headlessLoop 0 rand st =
     (if length (selected st) < TOTAL_DRAW_COUNT then None else Some st)"
| "headlessLoop (Suc fuel) rand st =
     (if length (selected st) < TOTAL_DRAW_COUNT
      then (let st' = headlessCycle rand st
            in if safetyBreak (selected st') then Some st' else headlessLoop fuel rand st')
      else Some st)"

text \<open>
  The fill loop after it.  \<^verbatim>\<open>balls[idx].id\<close> throws a \<^verbatim>\<open>TypeError\<close> when \<open>idx\<close> is not
  an index of \<open>balls\<close>.
\<close>

datatype 'a outcome = StillRunning | TypeError | Returned 'a

function fillLoop :: "(nat \<Rightarrow> real) \<Rightarrow> headless \<Rightarrow> headless option" where
  "fillLoop rand st =
     (if length (selected st) < TOTAL_DRAW_COUNT
      then (let idx = \<lfloor>rand (calls st) * real (length (balls st))\<rfloor>
            in if 0 \<le> idx \<and> idx < int (length (balls st))
               then fillLoop rand
                      (st\<lparr>selected := selected st @ [ball_id (balls st ! nat idx)],
                          balls := removeAt (nat idx) (balls st),
                          calls := Suc (calls st)\<rparr>)
               else None)
      else Some st)"
  by pat_completeness auto
termination
  by (relation "measure (\<lambda>(rand, st). TOTAL_DRAW_COUNT - length (selected st))") auto

definition runHeadlessSimulation :: "nat \<Rightarrow> (nat \<Rightarrow> real) \<Rightarrow> nat list outcome" where
  "runHeadlessSimulation fuel rand =
     (case headlessLoop fuel rand
             \<lparr>balls = headlessSetup rand, selected = [], calls = 4 * TOTAL_NUMBERS\<rparr> of
        None \<Rightarrow> StillRunning
      | Some st \<Rightarrow> (case fillLoop rand st of None \<Rightarrow> TypeError | Some st' \<Rightarrow> Returned (selected st')))"

subsection \<open>The real-time simulation\<close>

text \<open>
  The machine: \<^verbatim>\<open>drumCenter = {x: 300, y: 200}\<close> (the centre of the canvas),
  \<^verbatim>\<open>drumRadius = CONFIG.SIM_DRUM_RADIUS\<close>, \<^verbatim>\<open>suctionRadius = CONFIG.SIM_SUCTION_RADIUS\<close>.
\<close>

definition drumCenterX :: real where
  "drumCenterX = SIM_CANVAS_WIDTH / 2"

definition drumCenterY :: real where
  "drumCenterY = SIM_CANVAS_HEIGHT / 2"

definition drumRadius :: real where
  "drumRadius = SIM_DRUM_RADIUS"

definition suctionRadius :: real where
  "suctionRadius = SIM_SUCTION_RADIUS"

text \<open>The constructor \<^verbatim>\<open>new SimBall(id)\<close> consumes five random values.\<close>

definition SimBall :: "(nat \<Rightarrow> real) \<Rightarrow> nat \<Rightarrow> nat \<Rightarrow> ball" where
  "SimBall rand c i =
     (let angle = rand c * pi * 2;
          r = rand (c + 1) * (drumRadius - 20)
      in \<lparr>ball_id = i,
          ball_x = Fin (drumCenterX + cos angle * r),
          ball_y = Fin (drumCenterY + sin angle * r),
          vx = Fin ((rand (c + 2) - 1 / 2) * 15),
          vy = Fin ((rand (c + 3) - 1 / 2) * 15),
          radius = Fin 10,
          mass = Fin (1 + (rand (c + 4) - 1 / 2) * (5 / 100)),
          elasticity = Fin (85 / 100),
          friction = Fin (99 / 100)\<rparr>)"

text \<open>The air jet of \<^verbatim>\<open>update(turbulenceVal, gravityVal)\<close>.\<close>

definition airJet :: "(nat \<Rightarrow> real) \<Rightarrow> jsnum \<Rightarrow> ball \<Rightarrow> nat \<Rightarrow> ball \<times> nat" where
  "airJet rand turbulenceVal b c =
     (if turbulenceVal > Fin 0
      then (if \<bar>ball_x b - Fin drumCenterX\<bar> < Fin (60 / 2)
            then (if ball_y b > Fin drumCenterY + Fin drumRadius - Fin 100
                  then (let lift = turbulenceVal * Fin (8 / 10);
                            b1 = b\<lparr>vy := vy b - (lift + Fin (rand c) * Fin 2)\<rparr>
                        in (b1\<lparr>vx := vx b1 + (Fin (rand (Suc c)) - Fin (1 / 2)) * Fin 2\<rparr>, c + 2))
                  else if ball_y b > Fin drumCenterY
                  then (let b1 = b\<lparr>vy := vy b - turbulenceVal * Fin (1 / 10)\<rparr>
                        in (b1\<lparr>vx := vx b1 + (Fin (rand c) - Fin (1 / 2)) * Fin 5\<rparr>, Suc c))
                  else (b, c))
            else (b, c))
      else (b, c))"

text \<open>The circular wall, with the tangential damping that only this mode has.\<close>

definition wallCollision :: "ball \<Rightarrow> ball" where
  "wallCollision b =
     (let dx = ball_x b - Fin drumCenterX;
          dy = ball_y b - Fin drumCenterY;
          dist = jsqrt (dx * dx + dy * dy)
      in if dist + radius b > Fin drumRadius
         then (let nx = dx / dist;
                   ny = dy / dist;
                   overlap = dist + radius b - Fin drumRadius;
                   b1 = b\<lparr>ball_x := ball_x b - nx * overlap\<rparr>;
                   b2 = b1\<lparr>ball_y := ball_y b1 - ny * overlap\<rparr>;
                   dot = vx b2 * nx + vy b2 * ny;
                   b3 = b2\<lparr>vx := (vx b2 - Fin 2 * dot * nx) * elasticity b2\<rparr>;
                   b4 = b3\<lparr>vy := (vy b3 - Fin 2 * dot * ny) * elasticity b3\<rparr>;
                   tx = - ny;
                   ty = nx;
                   tDot = vx b4 * tx + vy b4 * ty;
                   b5 = b4\<lparr>vx := vx b4 - tx * tDot * Fin (5 / 100)\<rparr>
               in b5\<lparr>vy := vy b5 - ty * tDot * Fin (5 / 100)\<rparr>)
         else b)"

definition update :: "(nat \<Rightarrow> real) \<Rightarrow> jsnum \<Rightarrow> jsnum \<Rightarrow> ball \<Rightarrow> nat \<Rightarrow> ball \<times> nat" where
  "update rand turbulenceVal gravityVal b c =
     (let (b1, c') = airJet rand turbulenceVal (applyGravity gravityVal b) c
      in (wallCollision (moveBall (applyFriction b1)), c'))"

text \<open>
  \<^verbatim>\<open>simBalls.forEach(ball => { ball.radius = ballSize; ball.update(turbulence, gravity);
  ball.draw(); })\<close>; drawing changes no state of the simulation.
\<close>

fun updateBalls :: "(nat \<Rightarrow> real) \<Rightarrow> jsnum \<Rightarrow> jsnum \<Rightarrow> jsnum \<Rightarrow> ball list \<Rightarrow> nat \<Rightarrow> ball list \<times> nat" where
  "updateBalls rand ballSize turbulenceVal gravityVal [] c = ([], c)"
| "updateBalls rand ballSize turbulenceVal gravityVal (b # bs) c =
     (let (b', c1) = update rand turbulenceVal gravityVal (b\<lparr>radius := ballSize\<rparr>) c;
          (bs', c2) = updateBalls rand ballSize turbulenceVal gravityVal bs c1
      in (b' # bs', c2))"

text \<open>One pair of \<^verbatim>\<open>resolveCollisions\<close>: the mass-weighted exchange along the line of centres.\<close>

definition resolvePair :: "ball \<Rightarrow> ball \<Rightarrow> ball \<times> ball" where
  "resolvePair b1 b2 =
     (let dx = ball_x b2 - ball_x b1;
          dy = ball_y b2 - ball_y b1;
          distance = jsqrt (dx * dx + dy * dy)
      in if distance < radius b1 + radius b2
         then (let angle = jatan2 dy dx;
                   sn = jsin angle;
                   cs = jcos angle;
                   vx1 = vx b1 * cs + vy b1 * sn;
                   vy1 = vy b1 * cs - vx b1 * sn;
                   vx2 = vx b2 * cs + vy b2 * sn;
                   vy2 = vy b2 * cs - vx b2 * sn;
                   vx1Final = ((mass b1 - mass b2) * vx1 + Fin 2 * mass b2 * vx2) / (mass b1 + mass b2);
                   vx2Final = ((mass b2 - mass b1) * vx2 + Fin 2 * mass b1 * vx1) / (mass b1 + mass b2);
                   overlap = (radius b1 + radius b2 - distance) / Fin 2
               in (b1\<lparr>vx := vx1Final * cs - vy1 * sn,
                      vy := vy1 * cs + vx1Final * sn,
                      ball_x := ball_x b1 - overlap * cs,
                      ball_y := ball_y b1 - overlap * sn\<rparr>,
                   b2\<lparr>vx := vx2Final * cs - vy2 * sn,
                      vy := vy2 * cs + vx2Final * sn,
                      ball_x := ball_x b2 + overlap * cs,
                      ball_y := ball_y b2 + overlap * sn\<rparr>))
         else (b1, b2))"

definition resolveCollisions :: "ball list \<Rightarrow> ball list" where
  "resolveCollisions bs = allPairs resolvePair bs"

text \<open>
  The module state.  The canvas, the DOM elements and the sound are outside the model:
  a frame receives the values the animation loop reads from them, already parsed
  (\<^verbatim>\<open>parseInt\<close> and \<^verbatim>\<open>parseFloat\<close> give a number or \<^verbatim>\<open>NaN\<close>), or the defaults
  the loop takes when an element is missing (turbulence 5, gravity 0.3, ball size 10,
  interval \<open>SIM_EXTRACTION_INTERVAL\<close>).
\<close>

record sim =
  simRunning :: bool
  simBalls :: "ball list"
  simSelected :: "nat list"
  lastExtractionTime :: jsnum
  randomCalls :: nat

record frame =
  timestamp :: jsnum
  turbulence :: jsnum
  gravity :: jsnum
  ballSize :: jsnum
  interval :: jsnum

definition initialSim :: sim where
  "initialSim =
     \<lparr>simRunning = False, simBalls = [], simSelected = [], lastExtractionTime = Fin 0,
      randomCalls = 0\<rparr>"

definition initSimulation :: "(nat \<Rightarrow> real) \<Rightarrow> sim \<Rightarrow> sim" where
  "initSimulation rand st =
     st\<lparr>simBalls := map (\<lambda>i. SimBall rand (randomCalls st + 5 * (i - 1)) i) [1..<Suc TOTAL_NUMBERS],
        simSelected := [],
        lastExtractionTime := Fin 0,
        randomCalls := randomCalls st + 5 * TOTAL_NUMBERS\<rparr>"

text \<open>The suction test of the animation loop: \<^verbatim>\<open>Math.sqrt(dx * dx + dy * dy) < suctionRadius\<close>.\<close>

definition inSuction :: "ball \<Rightarrow> bool" where
  "inSuction b =
     (let dx = ball_x b - Fin drumCenterX;
          dy = ball_y b - (Fin drumCenterY - Fin drumRadius + Fin 20)
      in jsqrt (dx * dx + dy * dy) < Fin suctionRadius)"

text \<open>
  The extraction logic of one frame: the first ball in the suction zone is pushed to
  \<^verbatim>\<open>simSelected\<close> and spliced out of \<^verbatim>\<open>simBalls\<close>, and the loop over the balls is left
  (\<^verbatim>\<open>break\<close>); the seventh ball stops the simulation.
\<close>

definition extraction :: "frame \<Rightarrow> sim \<Rightarrow> sim" where
  "extraction inp st =
     (if length (simSelected st) < TOTAL_DRAW_COUNT
      then (if falsy (lastExtractionTime st) \<or> timestamp inp - lastExtractionTime st \<ge> interval inp
            then (case firstIndex inSuction (simBalls st) of
                    None \<Rightarrow> st
                  | Some i \<Rightarrow>
                      (let st1 = st\<lparr>simSelected := simSelected st @ [ball_id (simBalls st ! i)]\<rparr>;
                           st2 = st1\<lparr>simBalls := removeAt i (simBalls st1)\<rparr>;
                           st3 = st2\<lparr>lastExtractionTime := timestamp inp\<rparr>
                       in if length (simSelected st3) = TOTAL_DRAW_COUNT
                          then st3\<lparr>simRunning := False\<rparr> else st3))
            else st)
      else st)"

definition animateSimulation :: "(nat \<Rightarrow> real) \<Rightarrow> frame \<Rightarrow> sim \<Rightarrow> sim" where
  "animateSimulation rand inp st =
     (if \<not> simRunning st then st
      else (let (bs, c) = updateBalls rand (ballSize inp) (turbulence inp) (gravity inp)
                            (simBalls st) (randomCalls st)
            in extraction inp (st\<lparr>simBalls := resolveCollisions bs, randomCalls := c\<rparr>)))"

text \<open>
  The click handler of the start button: \<^verbatim>\<open>if (simRunning) return; simRunning = true;
  initSimulation(); requestAnimationFrame(animateSimulation);\<close>
\<close>

definition startClick :: "(nat \<Rightarrow> real) \<Rightarrow> sim \<Rightarrow> sim" where
  "startClick rand st = (if simRunning st then st else initSimulation rand (st\<lparr>simRunning := True\<rparr>))"

text \<open>What happens to the simulation over time: clicks on the start button and frames.\<close>

datatype event = Click | Frame frame

fun handleEvent :: "(nat \<Rightarrow> real) \<Rightarrow> event \<Rightarrow> sim \<Rightarrow> sim" where
  "handleEvent rand Click st = startClick rand st"
| "handleEvent rand (Frame inp) st = animateSimulation rand inp st"

definition runEvents :: "(nat \<Rightarrow> real) \<Rightarrow> event list \<Rightarrow> sim" where
  "runEvents rand events = fold (handleEvent rand) events initialSim"

subsection \<open>Notions used to state the properties of the simulation\<close>











text \<open>
  A ball whose position has become \<^verbatim>\<open>NaN\<close>, the number of balls of which this is not the
  case, and the relation between two ball arrays of equal length that no slot with a
  \<^verbatim>\<open>NaN\<close> position has a position again.
\<close>

definition posNaN :: "ball \<Rightarrow> bool" where
  "posNaN b = (ball_x b = NaN \<or> ball_y b = NaN)"

definition finiteCount :: "ball list \<Rightarrow> nat" where
  "finiteCount bs = length (filter (\<lambda>b. \<not> posNaN b) bs)"

abbreviation nanKept :: "ball list \<Rightarrow> ball list \<Rightarrow> bool" where
  "nanKept \<equiv> list_all2 (\<lambda>b b'. posNaN b \<longrightarrow> posNaN b')"

definition stallMeasure :: "headless \<Rightarrow> nat" where
  "stallMeasure st = finiteCount (balls st) + length (selected st)"

text \<open>
  Balls of radius 10 that all sit at the same point \<open>(X, Y)\<close>; \<open>cloneFrom m\<close> says that
  the slots below \<open>m\<close> have lost their position and the others sit at \<open>(X, Y)\<close>.
\<close>

definition clone :: "real \<Rightarrow> real \<Rightarrow> ball \<Rightarrow> bool" where
  "clone X Y b = (ball_x b = Fin X \<and> ball_y b = Fin Y \<and> radius b = Fin 10)"

definition cloneFrom :: "nat \<Rightarrow> real \<Rightarrow> real \<Rightarrow> ball list \<Rightarrow> bool" where
  "cloneFrom m X Y bs = (\<forall>k<length bs. if k < m then posNaN (bs ! k) else clone X Y (bs ! k))"

text \<open>
  The state of ball \<open>i\<close> after the first \<^verbatim>\<open>forEach\<close> of a headless run in which every
  call of \<^verbatim>\<open>Math.random()\<close> returns 0.
\<close>

definition afterFirstUpdate :: "nat \<Rightarrow> ball" where
  "afterFirstUpdate i =
     \<lparr>ball_id = i, ball_x = Fin (300 - 7425 / 1000), ball_y = Fin (200 - 7128 / 1000),
      vx = Fin (- (7425 / 1000)), vy = Fin (- (7128 / 1000)),
      radius = Fin 10, mass = Fin 1, elasticity = Fin (85 / 100), friction = Fin (99 / 100)\<rparr>"

text \<open>The invariant of the real-time state.\<close>

definition simInvariant :: "sim \<Rightarrow> bool" where
  "simInvariant st =
     (distinct (simSelected st @ map ball_id (simBalls st))
      \<and> length (simSelected st) \<le> TOTAL_DRAW_COUNT)"

text \<open>
  The invariant of the headless state: the selected ids and the ids of the remaining
  balls are, together and without repetition, the numbers \<open>1..45\<close>.
\<close>

definition headlessInvariant :: "headless \<Rightarrow> bool" where
  "headlessInvariant st =
     (distinct (selected st @ map ball_id (balls st))
      \<and> set (selected st @ map ball_id (balls st)) = {1..TOTAL_NUMBERS}
      \<and> length (selected st) \<le> TOTAL_DRAW_COUNT)"

section \<open>Properties of the number generation algorithms\<close>

subsection \<open>Frequency weights\<close>

lemma bumpFrequency_other: "a \<noteq> n \<Longrightarrow> bumpFrequency f a n = f n"
  by (simp add: bumpFrequency_def split: option.splits)

lemma bumpFrequency_same_Some: "f n = Some c \<Longrightarrow> c \<noteq> 0 \<Longrightarrow> bumpFrequency f n n = Some (c + 1)"
  by (simp add: bumpFrequency_def)

lemma bumpFrequency_None: "f n = None \<Longrightarrow> bumpFrequency f a n = None"
  by (cases "a = n") (simp_all add: bumpFrequency_def split: option.splits)

lemma bump_fold_Some:
  "f n = Some c \<Longrightarrow> c \<noteq> 0 \<Longrightarrow>
   fold (\<lambda>num f. bumpFrequency f num) nums f n = Some (c + count_list nums n)"
proof (induction nums arbitrary: f c)
  case Nil
  then show ?case by simp
next
  case (Cons a nums)
  show ?case
  proof (cases "a = n")
    case True
    have "bumpFrequency f a n = Some (c + 1)"
      using Cons.prems True by (simp add: bumpFrequency_same_Some)
    then have "fold (\<lambda>num f. bumpFrequency f num) nums (bumpFrequency f a) n
                 = Some (c + 1 + count_list nums n)"
      by (rule Cons.IH) simp
    with True show ?thesis by simp
  next
    case False
    have "bumpFrequency f a n = Some c"
      using Cons.prems False by (simp add: bumpFrequency_other)
    then have "fold (\<lambda>num f. bumpFrequency f num) nums (bumpFrequency f a) n
                 = Some (c + count_list nums n)"
      using Cons.prems(2) by (rule Cons.IH)
    with False show ?thesis by simp
  qed
qed

lemma history_fold_Some:
  "f n = Some c \<Longrightarrow> c \<noteq> 0 \<Longrightarrow>
   fold (\<lambda>draw frequency.
             case draw of
               Draw nums \<Rightarrow> fold (\<lambda>num f. bumpFrequency f num) nums frequency
             | NotArray \<Rightarrow> frequency) h f n = Some (c + occurrences n h)"
proof (induction h arbitrary: f c)
  case Nil
  then show ?case by simp
next
  case (Cons d h)
  show ?case
  proof (cases d)
    case (Draw nums)
    have step: "fold (\<lambda>num f. bumpFrequency f num) nums f n = Some (c + count_list nums n)"
      using Cons.prems by (rule bump_fold_Some)
    have "c + count_list nums n \<noteq> 0" using Cons.prems(2) by simp
    from Cons.IH[of "fold (\<lambda>num f. bumpFrequency f num) nums f" "c + count_list nums n", OF step this]
    show ?thesis using Draw by (simp add: add.assoc)
  next
    case NotArray
    with Cons show ?thesis by simp
  qed
qed

lemma weightedFrequency_eq:
  "1 \<le> n \<Longrightarrow> n \<le> TOTAL_NUMBERS \<Longrightarrow> weightedFrequency h n = Some (1 + occurrences n h)"
  unfolding weightedFrequency_def
  by (rule history_fold_Some) (simp_all add: initObj_def)

text \<open>
  Claim C9.  The frequency object built by \<open>getWeightedNumbers\<close> gives every number
  \<open>n\<close> of \<open>1..45\<close> the weight 1 plus the number of occurrences of \<open>n\<close> in the
  history.  The weight is therefore at least 1, and it grows with the occurrence count:
  a history with at least as many (strictly more) occurrences of \<open>n\<close> gives \<open>n\<close> at
  least as large (a strictly larger) weight.  For the history
  \<open>[[1,2,3,4,5,6],[1,2,3,4,5,6]]\<close> the weight of 1 is 3 and the weight of 7 is 1.
\<close>

theorem weighted_frequency_weight:
  assumes "1 \<le> n" and "n \<le> TOTAL_NUMBERS"
  shows "weightedFrequency h n = Some (1 + occurrences n h)
       \<and> (\<exists>w w'. weightedFrequency h n = Some w \<and> weightedFrequency h' n = Some w' \<and> 1 \<le> w
             \<and> (occurrences n h \<le> occurrences n h' \<longrightarrow> w \<le> w')
             \<and> (occurrences n h < occurrences n h' \<longrightarrow> w < w'))
       \<and> weightedFrequency [Draw [1, 2, 3, 4, 5, 6], Draw [1, 2, 3, 4, 5, 6]] 1 = Some 3
       \<and> weightedFrequency [Draw [1, 2, 3, 4, 5, 6], Draw [1, 2, 3, 4, 5, 6]] 7 = Some 1"
  using assms by (simp add: weightedFrequency_eq TOTAL_NUMBERS_def)

theorem weighted_frequency_weight_witness:
  "weightedFrequency [Draw [7, 21, 7, 45], NotArray, Draw [46, 0, 7]] 7 = Some 4
   \<and> weightedFrequency [Draw [7, 21, 7, 45], NotArray, Draw [46, 0, 7]] 45 = Some 2
   \<and> weightedFrequency [Draw [7, 21, 7, 45], NotArray, Draw [46, 0, 7]] 1 = Some 1"
  using weighted_frequency_weight[of 7 "[Draw [7, 21, 7, 45], NotArray, Draw [46, 0, 7]]"]
        weighted_frequency_weight[of 45 "[Draw [7, 21, 7, 45], NotArray, Draw [46, 0, 7]]"]
        weighted_frequency_weight[of 1 "[Draw [7, 21, 7, 45], NotArray, Draw [46, 0, 7]]"]
  by (simp add: TOTAL_NUMBERS_def)

subsection \<open>The pick loop of createPoolAndPick\<close>

lemma pickLoop_length:
  "pickLoop fuel rng k pool result = Some r \<Longrightarrow> length result \<le> TOTAL_DRAW_COUNT \<Longrightarrow>
   length r = TOTAL_DRAW_COUNT"
proof (induction fuel arbitrary: k result)
  case 0
  then show ?case by (auto split: if_splits)
next
  case (Suc fuel)
  show ?case
  proof (cases "length result < TOTAL_DRAW_COUNT")
    case True
    let ?num = "poolAt pool (rng k)"
    let ?res = "if ?num \<in> set result then result else result @ [?num]"
    have "pickLoop fuel rng (Suc k) pool ?res = Some r"
      using Suc.prems(1) True by (simp add: Let_def)
    moreover have "length ?res \<le> TOTAL_DRAW_COUNT" using True by simp
    ultimately show ?thesis by (rule Suc.IH)
  next
    case False
    then show ?thesis using Suc.prems by simp
  qed
qed

lemma pickLoop_sound:
  "pickLoop fuel rng k pool result = Some r \<Longrightarrow> distinct result \<Longrightarrow>
   distinct r \<and> set r \<subseteq> set result \<union> range (\<lambda>j. poolAt pool (rng j))"
proof (induction fuel arbitrary: k result)
  case 0
  then show ?case by (auto split: if_splits)
next
  case (Suc fuel)
  show ?case
  proof (cases "length result < TOTAL_DRAW_COUNT")
    case True
    let ?num = "poolAt pool (rng k)"
    let ?res = "if ?num \<in> set result then result else result @ [?num]"
    have "pickLoop fuel rng (Suc k) pool ?res = Some r"
      using Suc.prems(1) True by (simp add: Let_def)
    moreover have "distinct ?res" using Suc.prems(2) by simp
    ultimately have "distinct r \<and> set r \<subseteq> set ?res \<union> range (\<lambda>j. poolAt pool (rng j))"
      by (rule Suc.IH)
    moreover have "set ?res \<subseteq> set result \<union> range (\<lambda>j. poolAt pool (rng j))" by auto
    ultimately show ?thesis by blast
  next
    case False
    then show ?thesis using Suc.prems by simp
  qed
qed

lemma pickLoop_stuck:
  assumes "finite S" "card S < TOTAL_DRAW_COUNT" "\<And>j. poolAt pool (rng j) \<in> S"
  shows "set result \<subseteq> S \<Longrightarrow> distinct result \<Longrightarrow> pickLoop fuel rng k pool result = None"
proof (induction fuel arbitrary: k result)
  case 0
  have "length result = card (set result)" using 0 by (simp add: distinct_card)
  also have "\<dots> \<le> card S" using 0 assms(1) by (simp add: card_mono)
  finally show ?case using assms(2) by simp
next
  case (Suc fuel)
  have "length result = card (set result)" using Suc.prems by (simp add: distinct_card)
  also have "\<dots> \<le> card S" using Suc.prems assms(1) by (simp add: card_mono)
  finally have lt: "length result < TOTAL_DRAW_COUNT" using assms(2) by simp
  let ?num = "poolAt pool (rng k)"
  let ?res = "if ?num \<in> set result then result else result @ [?num]"
  have "set ?res \<subseteq> S" using Suc.prems(1) assms(3)[of k] by auto
  moreover have "distinct ?res" using Suc.prems(2) by simp
  ultimately have "pickLoop fuel rng (Suc k) pool ?res = None" by (rule Suc.IH)
  then show ?case using lt by (simp add: Let_def)
qed

lemma pickLoop_completes:
  "distinct result \<Longrightarrow>
   TOTAL_DRAW_COUNT \<le> card (set result \<union> (\<lambda>j. poolAt pool (rng j)) ` {k..<k + fuel}) \<Longrightarrow>
   \<exists>r. pickLoop fuel rng k pool result = Some r"
proof (induction fuel arbitrary: k result)
  case 0
  then have "TOTAL_DRAW_COUNT \<le> length result" by (simp add: distinct_card)
  then show ?case by simp
next
  case (Suc fuel)
  show ?case
  proof (cases "length result < TOTAL_DRAW_COUNT")
    case True
    let ?num = "poolAt pool (rng k)"
    let ?res = "if ?num \<in> set result then result else result @ [?num]"
    have d: "distinct ?res" using Suc.prems(1) by simp
    have "{k..<k + Suc fuel} = insert k {Suc k..<Suc k + fuel}" by auto
    then have "set result \<union> (\<lambda>j. poolAt pool (rng j)) ` {k..<k + Suc fuel}
             = set ?res \<union> (\<lambda>j. poolAt pool (rng j)) ` {Suc k..<Suc k + fuel}"
      by auto
    then have "TOTAL_DRAW_COUNT \<le> card (set ?res \<union> (\<lambda>j. poolAt pool (rng j)) ` {Suc k..<Suc k + fuel})"
      using Suc.prems(2) by simp
    with d have "\<exists>r. pickLoop fuel rng (Suc k) pool ?res = Some r" by (rule Suc.IH)
    then show ?thesis using True by (simp add: Let_def)
  next
    case False
    then show ?thesis by simp
  qed
qed

lemma poolAt_in_range:
  assumes "0 \<le> r" "r < 1" "pool \<noteq> []"
  shows "\<exists>x \<in> set pool. poolAt pool r = Some x"
proof -
  let ?n = "length pool"
  have n: "0 < real ?n" using assms(3) by simp
  have "0 \<le> r * real ?n" using assms(1) by simp
  then have lo: "0 \<le> \<lfloor>r * real ?n\<rfloor>" by simp
  have "r * real ?n < real ?n" using assms(2) n by simp
  then have hi: "\<lfloor>r * real ?n\<rfloor> < int ?n" by (simp add: floor_less_iff)
  then have "nat \<lfloor>r * real ?n\<rfloor> < ?n" using lo by linarith
  then have "pool ! nat \<lfloor>r * real ?n\<rfloor> \<in> set pool" by (rule nth_mem)
  moreover have "poolAt pool r = Some (pool ! nat \<lfloor>r * real ?n\<rfloor>)"
    using lo hi by (simp add: poolAt_def Let_def)
  ultimately show ?thesis by blast
qed

lemma poolAt_empty: "poolAt [] r = None"
  by (simp add: poolAt_def)

lemma set_buildPool: "set (buildPool weights pwr) \<subseteq> fst ` set weights"
  by (force simp: buildPool_def)

lemma entriesOf_initObj: "entriesOf (initObj v) = map (\<lambda>k. (k, v)) [1..<Suc TOTAL_NUMBERS]"
proof -
  have eq: "map (\<lambda>k. case initObj v k of None \<Rightarrow> [] | Some w \<Rightarrow> [(k, w)]) [1..<Suc TOTAL_NUMBERS]
      = map (\<lambda>k. [(k, v)]) [1..<Suc TOTAL_NUMBERS]"
    by (rule map_cong) (auto simp: initObj_def)
  show ?thesis by (simp only: entriesOf_def eq concat_map_singleton)
qed

lemma buildPool_const:
  "buildPool (map (\<lambda>k. (k, v)) ks) pwr = concat (map (replicate (nat (mathRound (v ^ pwr * 10)))) ks)"
  by (simp add: buildPool_def comp_def)

lemma createPoolAndPick_stuck:
  assumes "card (set (buildPool weights pwr)) < TOTAL_DRAW_COUNT"
      and "buildPool weights pwr = [] \<or> (\<forall>k. 0 \<le> rng k \<and> rng k < 1)"
  shows "createPoolAndPick fuel weights pwr rng = None"
proof (cases "buildPool weights pwr = []")
  case True
  have "pickLoop fuel rng 0 [] [] = None"
    by (rule pickLoop_stuck[where S = "{None}"]) (simp_all add: poolAt_empty TOTAL_DRAW_COUNT_def)
  then show ?thesis by (simp add: createPoolAndPick_def True)
next
  case False
  let ?pool = "buildPool weights pwr"
  have rng: "\<And>k. 0 \<le> rng k \<and> rng k < 1" using assms(2) False by simp
  have "pickLoop fuel rng 0 ?pool [] = None"
  proof (rule pickLoop_stuck[where S = "Some ` set ?pool"])
    show "finite (Some ` set ?pool)" by simp
    show "card (Some ` set ?pool) < TOTAL_DRAW_COUNT"
      using assms(1) by (simp add: card_image)
    show "poolAt ?pool (rng j) \<in> Some ` set ?pool" for j
      using poolAt_in_range[of "rng j" ?pool] rng[of j] False by auto
  qed simp_all
  then show ?thesis by (simp add: createPoolAndPick_def)
qed

text \<open>
  Claim C2, as the code has it.  \<open>createPoolAndPick\<close> has no error result.  When the pool
  holds fewer than \<open>TOTAL_DRAW_COUNT\<close> distinct numbers, and is empty or read with random
  values in \<open>[0, 1)\<close>, the loop is still running after any number of iterations: with an
  empty pool the first turn pushes \<^verbatim>\<open>undefined\<close> and every later turn rejects it as a
  duplicate.  Whenever the call does return, it returns exactly \<open>TOTAL_DRAW_COUNT\<close>
  entries.
\<close>

theorem createPoolAndPick_exhausted:
  "(card (set (buildPool weights pwr)) < TOTAL_DRAW_COUNT \<and>
      (buildPool weights pwr = [] \<or> (\<forall>k. 0 \<le> rng k \<and> rng k < 1))
      \<longrightarrow> (\<forall>fuel. createPoolAndPick fuel weights pwr rng = None))
   \<and> (\<forall>fuel r. createPoolAndPick fuel weights pwr rng = Some r \<longrightarrow> length r = TOTAL_DRAW_COUNT)"
proof (intro conjI impI allI)
  fix fuel
  assume "card (set (buildPool weights pwr)) < TOTAL_DRAW_COUNT \<and>
      (buildPool weights pwr = [] \<or> (\<forall>k. 0 \<le> rng k \<and> rng k < 1))"
  then show "createPoolAndPick fuel weights pwr rng = None"
    by (intro createPoolAndPick_stuck) simp_all
next
  fix fuel r
  assume "createPoolAndPick fuel weights pwr rng = Some r"
  then show "length r = TOTAL_DRAW_COUNT"
    unfolding createPoolAndPick_def by (rule pickLoop_length) simp
qed

lemma card_set_buildPool: "card (set (buildPool weights pwr)) \<le> length weights"
proof -
  have "card (set (buildPool weights pwr)) \<le> card (fst ` set weights)"
    by (rule card_mono) (simp_all add: set_buildPool)
  also have "\<dots> \<le> card (set weights)" by (rule card_image_le) simp
  also have "\<dots> \<le> length weights" by (rule card_length)
  finally show ?thesis .
qed

theorem createPoolAndPick_exhausted_witness:
  "\<forall>fuel. createPoolAndPick fuel [(3, 1), (11, 2), (19, 1), (23, 4), (31, 1), (42, 1)] WEIGHTED_POWER
      (\<lambda>k. 1 / 2) = None"
proof -
  let ?w = "[(3, 1), (11, 2), (19, 1), (23, 4), (31, 1), (42, 1)] :: (nat \<times> real) list"
  have "card (set (buildPool ?w WEIGHTED_POWER)) \<le> length ?w" by (rule card_set_buildPool)
  then have "card (set (buildPool ?w WEIGHTED_POWER)) < TOTAL_DRAW_COUNT"
    by (simp add: TOTAL_DRAW_COUNT_def)
  then show ?thesis
    using createPoolAndPick_exhausted[of ?w WEIGHTED_POWER "\<lambda>k. 1 / 2"] by simp
qed

text \<open>
  The claim fails as stated: with all 45 weights zero the pool is empty, and the call
  neither signals an error nor returns.
\<close>

theorem createPoolAndPick_empty_pool_hangs:
  "buildPool (entriesOf (initObj 0)) WEIGHTED_POWER = [] \<and>
   (\<forall>fuel. createPoolAndPick fuel (entriesOf (initObj 0)) WEIGHTED_POWER (\<lambda>k. 0) = None)"
proof -
  have e: "buildPool (entriesOf (initObj 0)) WEIGHTED_POWER = []"
    by (simp add: entriesOf_initObj buildPool_const mathRound_def WEIGHTED_POWER_def)
  then have "createPoolAndPick fuel (entriesOf (initObj 0)) WEIGHTED_POWER (\<lambda>k. 0) = None" for fuel
    by (intro createPoolAndPick_stuck) (simp_all add: TOTAL_DRAW_COUNT_def)
  with e show ?thesis by simp
qed

text \<open>
  Claim C4, as the code has it.  For every weight object with keys in \<open>1..45\<close> and every
  random source with values in \<open>[0, 1)\<close>: whenever \<open>createPoolAndPick\<close> returns, the
  result is exactly \<open>TOTAL_DRAW_COUNT\<close> pairwise distinct numbers of \<open>1..45\<close>; and it
  returns within \<open>fuel\<close> iterations as soon as the first \<open>fuel\<close> random values have
  indexed \<open>TOTAL_DRAW_COUNT\<close> distinct pool entries.
\<close>

theorem createPoolAndPick_sample:
  assumes keys: "\<forall>(num, weight) \<in> set weights. 1 \<le> num \<and> num \<le> TOTAL_NUMBERS"
      and rng: "\<forall>k. 0 \<le> rng k \<and> rng k < 1"
  shows "(\<forall>r. createPoolAndPick fuel weights pwr rng = Some r \<longrightarrow>
            length r = TOTAL_DRAW_COUNT \<and> distinct r \<and>
            (\<forall>x \<in> set r. \<exists>n. x = Some n \<and> 1 \<le> n \<and> n \<le> TOTAL_NUMBERS))
       \<and> (TOTAL_DRAW_COUNT \<le> card ((\<lambda>j. poolAt (buildPool weights pwr) (rng j)) ` {..<fuel}) \<longrightarrow>
            (\<exists>r. createPoolAndPick fuel weights pwr rng = Some r))"
proof (intro conjI allI impI)
  fix r
  assume ret: "createPoolAndPick fuel weights pwr rng = Some r"
  let ?pool = "buildPool weights pwr"
  from ret have loop: "pickLoop fuel rng 0 ?pool [] = Some r"
    by (simp add: createPoolAndPick_def)
  from loop show "length r = TOTAL_DRAW_COUNT" by (rule pickLoop_length) simp
  from loop have sound: "distinct r \<and> set r \<subseteq> set [] \<union> range (\<lambda>j. poolAt ?pool (rng j))"
    by (rule pickLoop_sound) simp
  then show "distinct r" by simp
  have nonempty: "?pool \<noteq> []"
  proof
    assume "?pool = []"
    then have "createPoolAndPick fuel weights pwr rng = None"
      by (intro createPoolAndPick_stuck) (simp_all add: TOTAL_DRAW_COUNT_def)
    with ret show False by simp
  qed
  show "\<forall>x \<in> set r. \<exists>n. x = Some n \<and> 1 \<le> n \<and> n \<le> TOTAL_NUMBERS"
  proof
    fix x assume "x \<in> set r"
    with sound obtain j where "x = poolAt ?pool (rng j)" by auto
    moreover obtain n where "n \<in> set ?pool" "poolAt ?pool (rng j) = Some n"
      using poolAt_in_range[of "rng j" ?pool] rng nonempty by auto
    moreover have "n \<in> fst ` set weights" using \<open>n \<in> set ?pool\<close> set_buildPool by blast
    then have "1 \<le> n \<and> n \<le> TOTAL_NUMBERS" using keys by auto
    ultimately show "\<exists>n. x = Some n \<and> 1 \<le> n \<and> n \<le> TOTAL_NUMBERS" by simp
  qed
next
  assume "TOTAL_DRAW_COUNT \<le> card ((\<lambda>j. poolAt (buildPool weights pwr) (rng j)) ` {..<fuel})"
  then have "TOTAL_DRAW_COUNT \<le>
      card (set [] \<union> (\<lambda>j. poolAt (buildPool weights pwr) (rng j)) ` {0..<0 + fuel})"
    by (simp add: lessThan_atLeast0)
  then have "\<exists>r. pickLoop fuel rng 0 (buildPool weights pwr) [] = Some r"
    by (intro pickLoop_completes) simp_all
  then show "\<exists>r. createPoolAndPick fuel weights pwr rng = Some r"
    by (simp add: createPoolAndPick_def)
qed

lemma concat_replicate_one: "concat (map (replicate (Suc 0)) xs) = xs"
  by (induction xs) simp_all

lemma buildPool_tenth: "buildPool (entriesOf (initObj (1 / 10))) WEIGHTED_POWER = [1..<Suc TOTAL_NUMBERS]"
proof -
  have "nat (mathRound ((1 / 10) ^ WEIGHTED_POWER * 10)) = 1"
    by (simp add: mathRound_def WEIGHTED_POWER_def)
  then show ?thesis
    by (simp only: entriesOf_initObj buildPool_const) (simp add: concat_replicate_one del: upt_Suc)
qed

lemma poolAt_upt: "j < TOTAL_NUMBERS \<Longrightarrow> poolAt [Suc 0..<Suc TOTAL_NUMBERS] (real j / 45) = Some (Suc j)"
  by (simp add: poolAt_def TOTAL_NUMBERS_def Let_def del: upt_Suc)

theorem createPoolAndPick_sample_witness:
  "\<exists>r. createPoolAndPick 7 (entriesOf (initObj (1 / 10))) WEIGHTED_POWER
          (\<lambda>k. if k < 45 then real k / 45 else 0) = Some r
       \<and> length r = TOTAL_DRAW_COUNT \<and> distinct r \<and> list_all (\<lambda>x. x \<in> Some ` {1..TOTAL_NUMBERS}) r"
proof -
  let ?w = "entriesOf (initObj (1 / 10)) :: (nat \<times> real) list"
  let ?rng = "\<lambda>k::nat. if k < 45 then real k / 45 else 0"
  have keys: "\<forall>(num, weight) \<in> set ?w. 1 \<le> num \<and> num \<le> TOTAL_NUMBERS"
    by (auto simp: entriesOf_initObj)
  have rng: "\<forall>k. 0 \<le> ?rng k \<and> ?rng k < 1" by simp
  have "(\<lambda>j. poolAt (buildPool ?w WEIGHTED_POWER) (?rng j)) ` {..<7} = Some ` Suc ` {..<7}"
    unfolding buildPool_tenth image_image
  proof (rule image_cong)
    fix j :: nat assume "j \<in> {..<7}"
    then have "j < TOTAL_NUMBERS" "j < 45" by (simp_all add: TOTAL_NUMBERS_def)
    then show "poolAt [1..<Suc TOTAL_NUMBERS] (if j < 45 then real j / 45 else 0) = Some (Suc j)"
      by (simp add: poolAt_upt del: upt_Suc)
  qed simp
  moreover have "card (Some ` Suc ` {..<7::nat}) = 7"
    by (simp add: card_image)
  ultimately have enough:
    "TOTAL_DRAW_COUNT \<le> card ((\<lambda>j. poolAt (buildPool ?w WEIGHTED_POWER) (?rng j)) ` {..<7})"
    by (simp add: TOTAL_DRAW_COUNT_def)
  from createPoolAndPick_sample[OF keys rng, of 7 WEIGHTED_POWER] enough
  obtain r where r: "createPoolAndPick 7 ?w WEIGHTED_POWER ?rng = Some r"
    and p: "length r = TOTAL_DRAW_COUNT \<and> distinct r \<and>
            (\<forall>x \<in> set r. \<exists>n. x = Some n \<and> 1 \<le> n \<and> n \<le> TOTAL_NUMBERS)"
    by blast
  from p have "list_all (\<lambda>x. x \<in> Some ` {1..TOTAL_NUMBERS}) r"
    by (auto simp: list_all_iff)
  with r p show ?thesis by blast
qed

text \<open>
  The claim fails as stated: with weight 1 for every number of \<open>1..45\<close> and a random
  source that returns 0 on every call, each turn reads \<open>pool[0]\<close> again and the loop
  never collects a second number.
\<close>

theorem createPoolAndPick_constant_rng_hangs:
  "list_all (\<lambda>(num, weight). 0 < weight) (entriesOf (initObj (1::real)))
   \<and> map fst (entriesOf (initObj (1::real))) = [1..<Suc TOTAL_NUMBERS]
   \<and> (\<forall>fuel. createPoolAndPick fuel (entriesOf (initObj 1)) WEIGHTED_POWER (\<lambda>k. 0) = None)"
proof -
  let ?w = "entriesOf (initObj 1) :: (nat \<times> real) list"
  let ?pool = "buildPool ?w WEIGHTED_POWER"
  have w: "?w = map (\<lambda>k. (k, 1)) [1..<Suc TOTAL_NUMBERS]" by (rule entriesOf_initObj)
  have a: "list_all (\<lambda>(num, weight). 0 < weight) ?w"
    unfolding w by (simp add: list_all_iff del: upt_Suc)
  have b: "map fst ?w = [1..<Suc TOTAL_NUMBERS]"
    unfolding w by (simp add: comp_def del: upt_Suc)
  have c: "createPoolAndPick fuel ?w WEIGHTED_POWER (\<lambda>k. 0) = None" for fuel
    unfolding createPoolAndPick_def
    by (rule pickLoop_stuck[where S = "{poolAt ?pool 0}"]) (simp_all add: TOTAL_DRAW_COUNT_def)
  from a b c show ?thesis by blast
qed

subsection \<open>The caches\<close>

text \<open>
  Claim C6.  After any call of \<open>getAdaptiveNumbers\<close> with a history \<open>h1\<close> the cache holds
  a weight object \<open>w1\<close> (computed from \<open>h1\<close> unless the cache already held an object for
  that length) and the length of \<open>h1\<close>.  The next call, with a history \<open>h2\<close>, leaves the
  caches as they are and samples from \<open>w1\<close> when \<open>h2\<close> has the length of \<open>h1\<close>,
  whatever its contents; it computes, stores and samples from the weights of \<open>h2\<close>
  when the lengths differ.
\<close>

theorem adaptive_cache_by_length:
  assumes "getAdaptiveNumbers fuel st rng h1 = (st1, r1)"
      and "getAdaptiveNumbers fuel' st1 rng' h2 = (st2, r2)"
  shows "\<exists>w1. cachedAdaptiveWeights st1 = Some w1
           \<and> cachedAdaptiveHistoryLength st1 = length h1
           \<and> r1 = createPoolAndPick fuel (entriesOf w1) ADAPTIVE_POWER rng
           \<and> (cachedAdaptiveWeights st = None \<or> cachedAdaptiveHistoryLength st \<noteq> length h1
                 \<longrightarrow> w1 = adaptiveWeights h1)
           \<and> (length h2 = length h1 \<longrightarrow>
                 st2 = st1 \<and> r2 = createPoolAndPick fuel' (entriesOf w1) ADAPTIVE_POWER rng')
           \<and> (length h2 \<noteq> length h1 \<longrightarrow>
                 cachedAdaptiveWeights st2 = Some (adaptiveWeights h2)
                 \<and> cachedAdaptiveHistoryLength st2 = length h2
                 \<and> r2 = createPoolAndPick fuel' (entriesOf (adaptiveWeights h2)) ADAPTIVE_POWER rng')"
proof -
  from assms(1) obtain w1 where w1: "cachedAdaptiveWeights st1 = Some w1"
      "cachedAdaptiveHistoryLength st1 = length h1"
      "r1 = createPoolAndPick fuel (entriesOf w1) ADAPTIVE_POWER rng"
      "cachedAdaptiveWeights st = None \<or> cachedAdaptiveHistoryLength st \<noteq> length h1
         \<longrightarrow> w1 = adaptiveWeights h1"
    by (auto simp: getAdaptiveNumbers_def split: option.splits if_splits)
  from assms(2) w1(1,2) have
    "length h2 = length h1 \<longrightarrow>
       st2 = st1 \<and> r2 = createPoolAndPick fuel' (entriesOf w1) ADAPTIVE_POWER rng'"
    by (auto simp: getAdaptiveNumbers_def split: option.splits if_splits)
  moreover from assms(2) w1(1,2) have
    "length h2 \<noteq> length h1 \<longrightarrow>
       cachedAdaptiveWeights st2 = Some (adaptiveWeights h2)
       \<and> cachedAdaptiveHistoryLength st2 = length h2
       \<and> r2 = createPoolAndPick fuel' (entriesOf (adaptiveWeights h2)) ADAPTIVE_POWER rng'"
    by (auto simp: getAdaptiveNumbers_def split: option.splits if_splits)
  ultimately show ?thesis using w1 by blast
qed

lemma decayAll_at: "1 \<le> n \<Longrightarrow> n \<le> TOTAL_NUMBERS \<Longrightarrow> decayAll w n = map_option (\<lambda>v. v * ADAPTIVE_DECAY_RATE) (w n)"
  by (simp add: decayAll_def)

lemma adaptiveWeights_example_low: "adaptiveWeights [Draw [1, 2, 3, 4, 5, 6]] 1 = Some (196 / 100)"
  by (simp add: adaptiveWeights_def RECENT_LIMIT_def adaptiveStep_def rewardNum_def decayAll_at initObj_def
      TOTAL_NUMBERS_def ADAPTIVE_DECAY_RATE_def ADAPTIVE_REWARD_def)

lemma adaptiveWeights_example_high: "adaptiveWeights [Draw [40, 41, 42, 43, 44, 45]] 1 = Some (96 / 100)"
  by (simp add: adaptiveWeights_def RECENT_LIMIT_def adaptiveStep_def rewardNum_def decayAll_at initObj_def
      TOTAL_NUMBERS_def ADAPTIVE_DECAY_RATE_def ADAPTIVE_REWARD_def)

theorem adaptive_cache_by_length_witness:
  "fst (getAdaptiveNumbers 9 (fst (getAdaptiveNumbers 9 initialCaches (\<lambda>k. 0) [Draw [1, 2, 3, 4, 5, 6]]))
          (\<lambda>k. 0) [Draw [40, 41, 42, 43, 44, 45]])
     = fst (getAdaptiveNumbers 9 initialCaches (\<lambda>k. 0) [Draw [1, 2, 3, 4, 5, 6]])
   \<and> cachedAdaptiveWeights (fst (getAdaptiveNumbers 9 initialCaches (\<lambda>k. 0) [Draw [1, 2, 3, 4, 5, 6]]))
     = Some (adaptiveWeights [Draw [1, 2, 3, 4, 5, 6]])
   \<and> adaptiveWeights [Draw [1, 2, 3, 4, 5, 6]] 1 = Some (196 / 100)
   \<and> adaptiveWeights [Draw [40, 41, 42, 43, 44, 45]] 1 = Some (96 / 100)"
proof -
  let ?h1 = "[Draw [1, 2, 3, 4, 5, 6]]" and ?h2 = "[Draw [40, 41, 42, 43, 44, 45]]"
  obtain st1 r1 where c1: "getAdaptiveNumbers 9 initialCaches (\<lambda>k. 0) ?h1 = (st1, r1)"
    by (cases "getAdaptiveNumbers 9 initialCaches (\<lambda>k. 0) ?h1")
  obtain st2 r2 where c2: "getAdaptiveNumbers 9 st1 (\<lambda>k. 0) ?h2 = (st2, r2)"
    by (cases "getAdaptiveNumbers 9 st1 (\<lambda>k. 0) ?h2")
  from adaptive_cache_by_length[OF c1 c2]
  have "st2 = st1" "cachedAdaptiveWeights st1 = Some (adaptiveWeights ?h1)"
    by (auto simp: initialCaches_def)
  then show ?thesis using c1 c2 adaptiveWeights_example_low adaptiveWeights_example_high by simp
qed

lemma getSequentialNumbers_cached:
  "cachedTransitions st = Some t \<Longrightarrow> getSequentialNumbers st h mrand rng = (st, sequentialDraw t rng)"
  by (simp add: getSequentialNumbers_def)

lemma getSequentialNumbers_first:
  "cachedTransitions st = None \<Longrightarrow>
   getSequentialNumbers st h mrand rng =
     (st\<lparr>cachedTransitions := Some (buildTransitions mrand (case h of None \<Rightarrow> [] | Some x \<Rightarrow> x))\<rparr>,
      sequentialDraw (buildTransitions mrand (case h of None \<Rightarrow> [] | Some x \<Rightarrow> x)) rng)"
  by (simp add: getSequentialNumbers_def Let_def)

text \<open>
  Claim C5, as the code has it.  \<open>getSequentialNumbers\<close> takes no history argument and
  keeps no history length.  It builds the transition table on the call that finds
  \<^verbatim>\<open>cachedTransitions\<close> empty (\<^verbatim>\<open>null\<close>), from the global history of that moment, and
  every later call draws from the same table and leaves the caches unchanged, whatever
  the history has become.
\<close>

theorem sequential_cache_built_once:
  assumes "getSequentialNumbers st h1 mrand rng = (st1, r1)"
      and "getSequentialNumbers st1 h2 mrand' rng' = (st2, r2)"
  shows "\<exists>t. cachedTransitions st1 = Some t \<and> r1 = sequentialDraw t rng
           \<and> (cachedTransitions st = None \<longrightarrow>
                 t = buildTransitions mrand (case h1 of None \<Rightarrow> [] | Some x \<Rightarrow> x))
           \<and> (cachedTransitions st \<noteq> None \<longrightarrow> st1 = st)
           \<and> st2 = st1 \<and> r2 = sequentialDraw t rng'"
proof (cases "cachedTransitions st")
  case None
  let ?t = "buildTransitions mrand (case h1 of None \<Rightarrow> [] | Some x \<Rightarrow> x)"
  from assms(1) have s: "st1 = st\<lparr>cachedTransitions := Some ?t\<rparr>" "r1 = sequentialDraw ?t rng"
    by (simp_all add: getSequentialNumbers_first[OF None])
  then have c: "cachedTransitions st1 = Some ?t" by simp
  from assms(2) have "st2 = st1" "r2 = sequentialDraw ?t rng'"
    by (simp_all add: getSequentialNumbers_cached[OF c])
  with s c None show ?thesis by simp
next
  case (Some t)
  from assms(1) have s: "st1 = st" "r1 = sequentialDraw t rng"
    by (simp_all add: getSequentialNumbers_cached[OF Some])
  from assms(2) have "st2 = st1" "r2 = sequentialDraw t rng'"
    by (simp_all add: s getSequentialNumbers_cached[OF Some])
  with s Some show ?thesis by simp
qed

lemma buildTransitions_example_one: "buildTransitions (\<lambda>k. 0) [Draw [1, 2, 3, 4, 5, 6]] 9 = None"
  by (simp add: buildTransitions_def learnDraw_def swapAt_def numeral_eq_Suc)

lemma buildTransitions_example_two: "buildTransitions (\<lambda>k. 0) [Draw [1, 2, 3, 4, 5, 6], Draw [1, 9, 17, 25, 33, 41]] 9 = Some [(17, 1)]"
  by (simp add: buildTransitions_def learnDraw_def swapAt_def numeral_eq_Suc)

theorem sequential_cache_built_once_witness:
  "fst (getSequentialNumbers
          (fst (getSequentialNumbers initialCaches None (\<lambda>k. 1 / 2) (\<lambda>k. 1 / 3)))
          (Some [Draw [4, 8, 15, 16, 23, 42]]) (\<lambda>k. 1 / 2) (\<lambda>k. 2 / 3))
     = fst (getSequentialNumbers initialCaches None (\<lambda>k. 1 / 2) (\<lambda>k. 1 / 3))
   \<and> cachedTransitions (fst (getSequentialNumbers initialCaches None (\<lambda>k. 1 / 2) (\<lambda>k. 1 / 3)))
     = Some (buildTransitions (\<lambda>k. 1 / 2) [])"
proof -
  obtain st1 r1 where c1: "getSequentialNumbers initialCaches None (\<lambda>k. 1 / 2) (\<lambda>k. 1 / 3) = (st1, r1)"
    by (cases "getSequentialNumbers initialCaches None (\<lambda>k. 1 / 2) (\<lambda>k. 1 / 3)")
  obtain st2 r2 where c2:
    "getSequentialNumbers st1 (Some [Draw [4, 8, 15, 16, 23, 42]]) (\<lambda>k. 1 / 2) (\<lambda>k. 2 / 3) = (st2, r2)"
    by (cases "getSequentialNumbers st1 (Some [Draw [4, 8, 15, 16, 23, 42]]) (\<lambda>k. 1 / 2) (\<lambda>k. 2 / 3)")
  from sequential_cache_built_once[OF c1 c2]
  have "st2 = st1" "cachedTransitions st1 = Some (buildTransitions (\<lambda>k. 1 / 2) [])"
    by (auto simp: initialCaches_def)
  then show ?thesis using c1 c2 by simp
qed

text \<open>
  The claim fails as stated: a first call with a history of one draw and a second call
  with a history of two draws leave the table of the one-draw history in the cache; the
  table of the two-draw history differs from it at the number 9.
\<close>

theorem sequential_cache_not_rebuilt:
  "length [Draw [1, 2, 3, 4, 5, 6]] \<noteq> length [Draw [1, 2, 3, 4, 5, 6], Draw [1, 9, 17, 25, 33, 41]]
   \<and> cachedTransitions
       (fst (getSequentialNumbers
          (fst (getSequentialNumbers initialCaches (Some [Draw [1, 2, 3, 4, 5, 6]]) (\<lambda>k. 0) (\<lambda>k. 0)))
          (Some [Draw [1, 2, 3, 4, 5, 6], Draw [1, 9, 17, 25, 33, 41]]) (\<lambda>k. 0) (\<lambda>k. 0)))
     = Some (buildTransitions (\<lambda>k. 0) [Draw [1, 2, 3, 4, 5, 6]])
   \<and> buildTransitions (\<lambda>k. 0) [Draw [1, 2, 3, 4, 5, 6]] 9 = None
   \<and> buildTransitions (\<lambda>k. 0) [Draw [1, 2, 3, 4, 5, 6], Draw [1, 9, 17, 25, 33, 41]] 9 = Some [(17, 1)]"
  using buildTransitions_example_one buildTransitions_example_two
  by (simp add: getSequentialNumbers_first getSequentialNumbers_cached initialCaches_def)

subsection \<open>The sequential draw\<close>

lemma pickScan_mem: "pickScan weights rw = Some n \<Longrightarrow> n \<in> fst ` set weights"
  by (induction weights rw rule: pickScan.induct) (auto split: if_splits)

lemma pickFromWeights_mem: "pickFromWeights weights r = Some n \<Longrightarrow> n \<in> fst ` set weights"
  by (auto simp: pickFromWeights_def split: option.splits list.splits dest: pickScan_mem)

lemma learnedPick_fresh:
  "learnedPick t rng k result currentNum = (Some n, k') \<Longrightarrow> Some n \<notin> set result"
  by (auto simp: learnedPick_def Let_def split: option.splits if_splits dest!: pickFromWeights_mem)

lemma availableNumbers_nonempty:
  assumes "length result < TOTAL_NUMBERS"
  shows "availableNumbers result \<noteq> []"
proof
  assume e: "availableNumbers result = []"
  then have "\<forall>i \<in> {1..TOTAL_NUMBERS}. Some i \<in> set result"
    by (auto simp: availableNumbers_def filter_empty_conv)
  then have "Some ` {1..TOTAL_NUMBERS} \<subseteq> set result" by auto
  then have "card (Some ` {1..TOTAL_NUMBERS}) \<le> card (set result)" by (intro card_mono) simp_all
  also have "\<dots> \<le> length result" by (rule card_length)
  finally show False using assms by (simp add: card_image)
qed

lemma pickAvailable_fresh:
  assumes "0 \<le> r" "r < 1" "length result < TOTAL_NUMBERS"
  shows "\<exists>n. pickAvailable result r = Some n \<and> Some n \<notin> set result \<and> 1 \<le> n \<and> n \<le> TOTAL_NUMBERS"
proof -
  from poolAt_in_range[OF assms(1,2) availableNumbers_nonempty[OF assms(3)]]
  obtain n where "n \<in> set (availableNumbers result)" "poolAt (availableNumbers result) r = Some n"
    by blast
  then show ?thesis by (auto simp: pickAvailable_def availableNumbers_def)
qed

lemma nextPick_fresh:
  assumes rng: "\<forall>k. 0 \<le> rng k \<and> rng k < 1" and len: "length result < TOTAL_NUMBERS"
      and np: "nextPick t rng k result currentNum = (nextNum, k')"
  shows "\<exists>n. nextNum = Some n \<and> Some n \<notin> set result"
proof -
  obtain p k1 where lp: "learnedPick t rng k result currentNum = (p, k1)"
    by (cases "learnedPick t rng k result currentNum")
  show ?thesis
  proof (cases "p = None \<or> p = Some 0")
    case True
    then have "nextNum = pickAvailable result (rng k1)"
      using np lp by (auto simp: nextPick_def)
    then show ?thesis using pickAvailable_fresh[of "rng k1" result] rng len by auto
  next
    case False
    then obtain n where n: "p = Some n" by auto
    with False np lp have "nextNum = Some n" by (auto simp: nextPick_def)
    moreover have "Some n \<notin> set result" using lp n learnedPick_fresh by blast
    ultimately show ?thesis by simp
  qed
qed

lemma chainLoop_distinct:
  "\<forall>k. 0 \<le> rng k \<and> rng k < 1 \<Longrightarrow> distinct result \<Longrightarrow> length result \<le> 6 \<Longrightarrow>
   chainLoop t rng k result currentNum = (res, k') \<Longrightarrow> distinct res \<and> length res = 6"
proof (induction t rng k result currentNum rule: chainLoop.induct)
  case (1 t rng k result currentNum)
  note rng = "1.prems"(1)
  show ?case
  proof (cases "length result < 6")
    case True
    obtain nextNum k1 where np: "nextPick t rng k result currentNum = (nextNum, k1)"
      by (cases "nextPick t rng k result currentNum")
    have "length result < TOTAL_NUMBERS" using True by (simp add: TOTAL_NUMBERS_def)
    from nextPick_fresh[OF rng this np] have fresh: "nextNum \<notin> set result" by auto
    have call: "chainLoop t rng k1 (result @ [nextNum]) nextNum = (res, k')"
      using "1.prems"(4) True np by (simp add: chainLoop.simps[of t rng k result])
    have d: "distinct (result @ [nextNum])" using "1.prems"(2) fresh by simp
    have l: "length (result @ [nextNum]) \<le> 6" using True by simp
    show ?thesis using "1.IH"[OF True np[symmetric] refl rng d l call] .
  next
    case False
    then show ?thesis using "1.prems" by (simp add: chainLoop.simps[of t rng k result])
  qed
qed

lemma sequentialDraw_distinct:
  assumes rng: "\<forall>k. 0 \<le> rng k \<and> rng k < 1"
  shows "length (sequentialDraw t rng) = 7 \<and> distinct (sequentialDraw t rng)"
proof -
  let ?first = "Some (nat (\<lfloor>rng 0 * real TOTAL_NUMBERS\<rfloor> + 1))"
  obtain res k where cl: "chainLoop t rng 1 [?first] ?first = (res, k)"
    by (cases "chainLoop t rng 1 [?first] ?first")
  from chainLoop_distinct[OF rng _ _ cl] have res: "distinct res" "length res = 6" by simp_all
  then have "length res < TOTAL_NUMBERS" by (simp add: TOTAL_NUMBERS_def)
  from pickAvailable_fresh[OF _ _ this, of "rng k"] rng
  obtain n where "pickAvailable res (rng k) = Some n" "Some n \<notin> set res" by auto
  moreover have "sequentialDraw t rng = res @ [pickAvailable res (rng k)]"
    using cl by (simp add: sequentialDraw_def Let_def)
  ultimately show ?thesis using res by simp
qed

text \<open>
  Claim C7.  With a random source whose values lie in \<open>[0, 1)\<close>, every draw that
  \<open>getSequentialNumbers\<close> returns has \<open>TOTAL_DRAW_COUNT\<close> entries, no duplicate among its
  first 6 entries, and a 7th entry (the bonus) that differs from each of the first 6.
\<close>

theorem sequential_draw_no_duplicates:
  assumes "\<forall>k. 0 \<le> rng k \<and> rng k < 1"
      and "getSequentialNumbers st allWinningNumbers mrand rng = (st', draw)"
  shows "length draw = TOTAL_DRAW_COUNT \<and> distinct (take 6 draw) \<and> draw ! 6 \<notin> set (take 6 draw)"
proof -
  obtain t where "draw = sequentialDraw t rng"
    using assms(2) by (auto simp: getSequentialNumbers_def Let_def split: option.splits)
  with sequentialDraw_distinct[OF assms(1), of t]
  have l: "length draw = 7" and d: "distinct draw" by simp_all
  have "take (Suc 6) draw = take 6 draw @ [draw ! 6]"
    using l by (intro take_Suc_conv_app_nth) simp
  moreover have "take (Suc 6) draw = draw" using l by simp
  ultimately have "draw = take 6 draw @ [draw ! 6]" by simp
  with d have "distinct (take 6 draw @ [draw ! 6])" by simp
  then show ?thesis using l by (simp add: TOTAL_DRAW_COUNT_def)
qed

theorem sequential_draw_no_duplicates_witness:
  "length (snd (getSequentialNumbers initialCaches (Some [Draw [3, 14, 15, 26, 35, 44]])
                  (\<lambda>k. 1 / 4) (\<lambda>k. 1 / 2))) = TOTAL_DRAW_COUNT
   \<and> distinct (take 6 (snd (getSequentialNumbers initialCaches (Some [Draw [3, 14, 15, 26, 35, 44]])
                  (\<lambda>k. 1 / 4) (\<lambda>k. 1 / 2))))
   \<and> snd (getSequentialNumbers initialCaches (Some [Draw [3, 14, 15, 26, 35, 44]])
                  (\<lambda>k. 1 / 4) (\<lambda>k. 1 / 2)) ! 6
       \<notin> set (take 6 (snd (getSequentialNumbers initialCaches (Some [Draw [3, 14, 15, 26, 35, 44]])
                  (\<lambda>k. 1 / 4) (\<lambda>k. 1 / 2))))"
proof -
  have rng: "\<forall>k::nat. (0::real) \<le> 1 / 2 \<and> (1::real) / 2 < 1" by simp
  obtain st' draw where c:
    "getSequentialNumbers initialCaches (Some [Draw [3, 14, 15, 26, 35, 44]]) (\<lambda>k. 1 / 4) (\<lambda>k. 1 / 2)
       = (st', draw)"
    by (cases "getSequentialNumbers initialCaches (Some [Draw [3, 14, 15, 26, 35, 44]])
                 (\<lambda>k. 1 / 4) (\<lambda>k. 1 / 2)")
  from sequential_draw_no_duplicates[OF rng c] show ?thesis using c by simp
qed

section \<open>Properties of the simulation\<close>

subsection \<open>The safety break\<close>

text \<open>
  Claim C3, as the code has it.  \<open>STEPS_PER_EXTRACTION\<close> is the constant 30, so
  \<^verbatim>\<open>STEPS_PER_EXTRACTION * 1000\<close> is 30000 and the comparison
  \<^verbatim>\<open>STEPS_PER_EXTRACTION * 1000 > 1000000\<close> always evaluates to false: the safety break is
  never taken, whatever has been selected.
\<close>

theorem safety_break_never_taken:
  "STEPS_PER_EXTRACTION * 1000 = 30000 \<and> safetyThreshold = False \<and> safetyBreak sel = False"
  by (simp add: safetyBreak_def safetyThreshold_def STEPS_PER_EXTRACTION_def)

text \<open>The claim fails as stated: the comparison is not true.\<close>

theorem safety_threshold_not_true: "\<not> (STEPS_PER_EXTRACTION * 1000 > 1000000)"
  by (simp add: STEPS_PER_EXTRACTION_def)

subsection \<open>Pairwise collisions\<close>













subsection \<open>The real-time loop\<close>

lemma applyGravity_id [simp]: "ball_id (applyGravity g b) = ball_id b"
  by (simp add: applyGravity_def)

lemma applyFriction_id [simp]: "ball_id (applyFriction b) = ball_id b"
  by (simp add: applyFriction_def Let_def)

lemma moveBall_id [simp]: "ball_id (moveBall b) = ball_id b"
  by (simp add: moveBall_def Let_def)

lemma airJet_id [simp]: "ball_id (fst (airJet rand t b c)) = ball_id b"
  by (simp add: airJet_def Let_def)

lemma wallCollision_id [simp]: "ball_id (wallCollision b) = ball_id b"
  by (simp add: wallCollision_def Let_def)

lemma update_id [simp]: "ball_id (fst (update rand t g b c)) = ball_id b"
proof -
  obtain b1 c' where j: "airJet rand t (applyGravity g b) c = (b1, c')"
    by (cases "airJet rand t (applyGravity g b) c")
  have "ball_id b1 = ball_id (fst (airJet rand t (applyGravity g b) c))" by (simp add: j)
  then have "ball_id b1 = ball_id b" by simp
  then show ?thesis by (simp add: update_def j)
qed

lemma updateBalls_ids: "map ball_id (fst (updateBalls rand sz t g bs c)) = map ball_id bs"
proof (induction bs arbitrary: c)
  case Nil
  then show ?case by simp
next
  case (Cons b bs)
  obtain b' c1 where u: "update rand t g (b\<lparr>radius := sz\<rparr>) c = (b', c1)"
    by (cases "update rand t g (b\<lparr>radius := sz\<rparr>) c")
  obtain bs' c2 where r: "updateBalls rand sz t g bs c1 = (bs', c2)"
    by (cases "updateBalls rand sz t g bs c1")
  have "ball_id b' = ball_id (fst (update rand t g (b\<lparr>radius := sz\<rparr>) c))" by (simp add: u)
  then have "ball_id b' = ball_id b" by simp
  moreover have "map ball_id bs' = map ball_id bs" using Cons.IH[of c1] by (simp add: r)
  ultimately show ?case by (simp add: u r)
qed

lemma resolvePair_ids:
  "ball_id (fst (resolvePair b1 b2)) = ball_id b1 \<and> ball_id (snd (resolvePair b1 b2)) = ball_id b2"
  by (simp add: resolvePair_def Let_def)

lemma headlessCollide_ids:
  "ball_id (fst (headlessCollide b1 b2)) = ball_id b1 \<and> ball_id (snd (headlessCollide b1 b2)) = ball_id b2"
  by (simp add: headlessCollide_def Let_def)

lemma map_update_same: "(map f xs)[i := f (xs ! i)] = map f xs"
  by (cases "i < length xs") (simp_all add: list_update_same_conv list_update_beyond)

lemma collideAt_ids:
  assumes "\<And>b1 b2. ball_id (fst (resolve b1 b2)) = ball_id b1 \<and> ball_id (snd (resolve b1 b2)) = ball_id b2"
  shows "map ball_id (collideAt resolve i j bs) = map ball_id bs"
proof -
  obtain c1 c2 where r: "resolve (bs ! i) (bs ! j) = (c1, c2)" by (cases "resolve (bs ! i) (bs ! j)")
  have "ball_id c1 = ball_id (bs ! i)" "ball_id c2 = ball_id (bs ! j)"
    using assms[of "bs ! i" "bs ! j"] by (simp_all add: r)
  then have "map ball_id (bs[i := c1, j := c2]) = (map ball_id bs)[i := ball_id (bs ! i), j := ball_id (bs ! j)]"
    by (simp add: map_update)
  also have "\<dots> = map ball_id bs" by (simp only: map_update_same)
  finally show ?thesis by (simp add: collideAt_def r)
qed

lemma fold_collideAt_ids:
  assumes "\<And>b1 b2. ball_id (fst (resolve b1 b2)) = ball_id b1 \<and> ball_id (snd (resolve b1 b2)) = ball_id b2"
  shows "map ball_id (fold (collideAt resolve i) js bs) = map ball_id bs"
  by (induction js arbitrary: bs) (simp_all add: collideAt_ids[OF assms])

lemma allPairs_ids:
  assumes "\<And>b1 b2. ball_id (fst (resolve b1 b2)) = ball_id b1 \<and> ball_id (snd (resolve b1 b2)) = ball_id b2"
  shows "map ball_id (allPairs resolve bs) = map ball_id bs"
proof -
  have "map ball_id (fold (\<lambda>i bs1. fold (collideAt resolve i) [Suc i..<n] bs1) is bs) = map ball_id bs"
    for n "is"
    by (induction "is" arbitrary: bs) (simp_all add: fold_collideAt_ids[OF assms])
  then show ?thesis by (simp add: allPairs_def)
qed

lemma firstIndex_Some: "firstIndex P bs = Some i \<Longrightarrow> i < length bs \<and> P (bs ! i)"
proof (induction bs arbitrary: i)
  case Nil
  then show ?case by simp
next
  case (Cons b bs)
  show ?case
  proof (cases "P b")
    case True
    with Cons.prems show ?thesis by simp
  next
    case False
    with Cons.prems obtain k where "firstIndex P bs = Some k" "i = Suc k" by auto
    with Cons.IH[of k] show ?thesis by simp
  qed
qed

lemma map_removeAt: "map f (removeAt i xs) = removeAt i (map f xs)"
  by (simp add: removeAt_def take_map drop_map)

lemma split_at: "i < length xs \<Longrightarrow> xs = take i xs @ xs ! i # drop (Suc i) xs"
  by (simp add: id_take_nth_drop)

lemma distinct_move:
  assumes "distinct (sel @ ids)" and "i < length ids"
  shows "distinct ((sel @ [ids ! i]) @ removeAt i ids)"
proof -
  have "ids = take i ids @ ids ! i # drop (Suc i) ids" using assms(2) by (rule split_at)
  then have "distinct (sel @ take i ids @ ids ! i # drop (Suc i) ids)" using assms(1) by simp
  then show ?thesis by (auto simp: removeAt_def)
qed

lemma extraction_cases:
  "(simSelected (extraction inp st) = simSelected st \<and> simBalls (extraction inp st) = simBalls st)
   \<or> (length (simSelected st) < TOTAL_DRAW_COUNT
       \<and> (\<exists>i<length (simBalls st).
             simSelected (extraction inp st) = simSelected st @ [ball_id (simBalls st ! i)]
             \<and> simBalls (extraction inp st) = removeAt i (simBalls st)))"
proof (cases "firstIndex inSuction (simBalls st)")
  case None
  then show ?thesis by (simp add: extraction_def)
next
  case (Some i)
  then have "i < length (simBalls st)" by (simp add: firstIndex_Some)
  then show ?thesis using Some by (auto simp: extraction_def Let_def)
qed

lemma animateSimulation_cases:
  "(simSelected (animateSimulation rand inp st) = simSelected st
      \<and> map ball_id (simBalls (animateSimulation rand inp st)) = map ball_id (simBalls st))
   \<or> (length (simSelected st) < TOTAL_DRAW_COUNT
       \<and> (\<exists>i<length (simBalls st).
             simSelected (animateSimulation rand inp st) = simSelected st @ [ball_id (simBalls st ! i)]
             \<and> map ball_id (simBalls (animateSimulation rand inp st))
                 = map ball_id (removeAt i (simBalls st))))"
proof (cases "simRunning st")
  case False
  then show ?thesis by (simp add: animateSimulation_def)
next
  case True
  obtain bs c where u: "updateBalls rand (ballSize inp) (turbulence inp) (gravity inp)
                          (simBalls st) (randomCalls st) = (bs, c)"
    by (cases "updateBalls rand (ballSize inp) (turbulence inp) (gravity inp) (simBalls st) (randomCalls st)")
  define st1 where "st1 = st\<lparr>simBalls := resolveCollisions bs, randomCalls := c\<rparr>"
  have a: "animateSimulation rand inp st = extraction inp st1"
    using True by (simp add: animateSimulation_def u st1_def)
  have "map ball_id bs = map ball_id (simBalls st)"
    using updateBalls_ids[of rand "ballSize inp" "turbulence inp" "gravity inp" "simBalls st" "randomCalls st"]
    by (simp add: u)
  then have ids: "map ball_id (simBalls st1) = map ball_id (simBalls st)"
    by (simp add: st1_def resolveCollisions_def allPairs_ids[OF resolvePair_ids])
  then have len: "length (simBalls st1) = length (simBalls st)" by (rule map_eq_imp_length_eq)
  have sel: "simSelected st1 = simSelected st" by (simp add: st1_def)
  from extraction_cases[of inp st1] show ?thesis
  proof
    assume "simSelected (extraction inp st1) = simSelected st1 \<and> simBalls (extraction inp st1) = simBalls st1"
    then show ?thesis by (simp add: a sel ids)
  next
    assume "length (simSelected st1) < TOTAL_DRAW_COUNT
       \<and> (\<exists>i<length (simBalls st1).
             simSelected (extraction inp st1) = simSelected st1 @ [ball_id (simBalls st1 ! i)]
             \<and> simBalls (extraction inp st1) = removeAt i (simBalls st1))"
    then obtain i where i: "length (simSelected st1) < TOTAL_DRAW_COUNT" "i < length (simBalls st1)"
        "simSelected (extraction inp st1) = simSelected st1 @ [ball_id (simBalls st1 ! i)]"
        "simBalls (extraction inp st1) = removeAt i (simBalls st1)"
      by blast
    have "ball_id (simBalls st1 ! i) = map ball_id (simBalls st1) ! i" using i(2) by simp
    also have "\<dots> = map ball_id (simBalls st) ! i" by (simp only: ids)
    also have "\<dots> = ball_id (simBalls st ! i)" using i(2) len by simp
    finally have b: "ball_id (simBalls st1 ! i) = ball_id (simBalls st ! i)" .
    have "map ball_id (removeAt i (simBalls st1)) = map ball_id (removeAt i (simBalls st))"
      by (simp only: map_removeAt ids)
    then show ?thesis using i b len by (auto simp: a sel)
  qed
qed

lemma simInvariant_initial: "simInvariant initialSim"
  by (simp add: simInvariant_def initialSim_def)

lemma simInvariant_click: "simInvariant st \<Longrightarrow> simInvariant (startClick rand st)"
  by (simp add: simInvariant_def startClick_def initSimulation_def comp_def SimBall_def Let_def del: upt_Suc)

lemma simInvariant_frame:
  assumes "simInvariant st"
  shows "simInvariant (animateSimulation rand inp st)"
proof -
  let ?st' = "animateSimulation rand inp st"
  from animateSimulation_cases[of rand inp st] show ?thesis
  proof
    assume "simSelected ?st' = simSelected st \<and> map ball_id (simBalls ?st') = map ball_id (simBalls st)"
    then show ?thesis using assms by (simp add: simInvariant_def)
  next
    assume "length (simSelected st) < TOTAL_DRAW_COUNT
       \<and> (\<exists>i<length (simBalls st).
             simSelected ?st' = simSelected st @ [ball_id (simBalls st ! i)]
             \<and> map ball_id (simBalls ?st') = map ball_id (removeAt i (simBalls st)))"
    then obtain i where i: "length (simSelected st) < TOTAL_DRAW_COUNT" "i < length (simBalls st)"
        "simSelected ?st' = simSelected st @ [ball_id (simBalls st ! i)]"
        "map ball_id (simBalls ?st') = map ball_id (removeAt i (simBalls st))"
      by blast
    have "distinct ((simSelected st @ [map ball_id (simBalls st) ! i]) @ removeAt i (map ball_id (simBalls st)))"
      using assms i(2) by (intro distinct_move) (simp_all add: simInvariant_def)
    then have "distinct (simSelected ?st' @ map ball_id (simBalls ?st'))"
      using i by (simp add: map_removeAt)
    then show ?thesis using i(1,3) by (simp add: simInvariant_def)
  qed
qed

lemma simInvariant_events: "simInvariant st \<Longrightarrow> simInvariant (fold (handleEvent rand) events st)"
proof (induction events arbitrary: st)
  case Nil
  then show ?case by simp
next
  case (Cons e events)
  have "simInvariant (handleEvent rand e st)"
    using Cons.prems by (cases e) (simp_all add: simInvariant_click simInvariant_frame)
  then show ?case using Cons.IH by simp
qed

text \<open>
  Claim C10.  In every state that clicks on the start button and animation frames can
  reach, the selected ids are pairwise distinct, the ids of the active balls are
  pairwise distinct, no selected id is the id of an active ball, and at most
  \<open>TOTAL_DRAW_COUNT\<close> ids are selected.  One more frame either leaves the selected ids
  and the ids of the active balls as they are, or, only while fewer than
  \<open>TOTAL_DRAW_COUNT\<close> ids are selected, removes exactly one ball from the active
  balls and appends its id to the selected ids.
\<close>

theorem realtime_extraction_invariant:
  "distinct (simSelected (runEvents rand events))
   \<and> distinct (map ball_id (simBalls (runEvents rand events)))
   \<and> set (simSelected (runEvents rand events)) \<inter> ball_id ` set (simBalls (runEvents rand events)) = {}
   \<and> length (simSelected (runEvents rand events)) \<le> TOTAL_DRAW_COUNT
   \<and> ((simSelected (animateSimulation rand inp (runEvents rand events)) = simSelected (runEvents rand events)
        \<and> map ball_id (simBalls (animateSimulation rand inp (runEvents rand events)))
            = map ball_id (simBalls (runEvents rand events)))
      \<or> (length (simSelected (runEvents rand events)) < TOTAL_DRAW_COUNT
          \<and> (\<exists>i<length (simBalls (runEvents rand events)).
                simSelected (animateSimulation rand inp (runEvents rand events))
                  = simSelected (runEvents rand events) @ [ball_id (simBalls (runEvents rand events) ! i)]
                \<and> map ball_id (simBalls (animateSimulation rand inp (runEvents rand events)))
                  = map ball_id (removeAt i (simBalls (runEvents rand events))))))"
proof -
  have "simInvariant (runEvents rand events)"
    unfolding runEvents_def by (rule simInvariant_events[OF simInvariant_initial])
  then have "distinct (simSelected (runEvents rand events))"
    "distinct (map ball_id (simBalls (runEvents rand events)))"
    "set (simSelected (runEvents rand events)) \<inter> ball_id ` set (simBalls (runEvents rand events)) = {}"
    "length (simSelected (runEvents rand events)) \<le> TOTAL_DRAW_COUNT"
    by (auto simp: simInvariant_def)
  then show ?thesis using animateSimulation_cases[of rand inp "runEvents rand events"] by blast
qed

subsection \<open>The headless run\<close>

lemma NaN_arith [simp]:
  "NaN + a = NaN" "a + NaN = NaN" "NaN - a = NaN" "a - NaN = NaN" "NaN * a = NaN" "a * NaN = NaN"
  "NaN / a = NaN" "a / NaN = NaN" "\<not> NaN < a" "\<not> a < NaN" "\<not> NaN \<le> a" "\<not> a \<le> NaN"
  by (cases a; simp)+

lemma headlessJet_pos:
  "ball_x (fst (headlessJet rand b c)) = ball_x b \<and> ball_y (fst (headlessJet rand b c)) = ball_y b"
  by (simp add: headlessJet_def Let_def)

lemma headlessWall_NaN: "posNaN b \<Longrightarrow> headlessWall b = b"
  by (auto simp: posNaN_def headlessWall_def Let_def)

lemma headlessUpdate_NaN:
  assumes "posNaN b"
  shows "posNaN (fst (headlessUpdate rand b c))"
proof -
  obtain b1 c' where j: "headlessJet rand (applyGravity (Fin headlessGravity) b) c = (b1, c')"
    by (cases "headlessJet rand (applyGravity (Fin headlessGravity) b) c")
  have "ball_x b1 = ball_x (fst (headlessJet rand (applyGravity (Fin headlessGravity) b) c))"
       "ball_y b1 = ball_y (fst (headlessJet rand (applyGravity (Fin headlessGravity) b) c))"
    by (simp_all add: j)
  then have "ball_x b1 = ball_x b" "ball_y b1 = ball_y b"
    by (simp_all add: headlessJet_pos applyGravity_def)
  then have "posNaN (moveBall (applyFriction b1))"
    using assms by (auto simp: posNaN_def moveBall_def applyFriction_def Let_def)
  then have "posNaN (headlessWall (moveBall (applyFriction b1)))"
    by (simp add: headlessWall_NaN)
  then show ?thesis by (simp add: headlessUpdate_def j)
qed

lemma nanKept_refl: "nanKept bs bs"
  by (simp add: list_all2_refl)

lemma nanKept_trans: "nanKept as bs \<Longrightarrow> nanKept bs cs \<Longrightarrow> nanKept as cs"
  using list_all2_trans[of "\<lambda>b b'. posNaN b \<longrightarrow> posNaN b'" "\<lambda>b b'. posNaN b \<longrightarrow> posNaN b'"
      "\<lambda>b b'. posNaN b \<longrightarrow> posNaN b'" as bs cs]
  by blast

lemma nanKept_count: "nanKept bs bs' \<Longrightarrow> finiteCount bs' \<le> finiteCount bs"
  unfolding finiteCount_def by (induction rule: list_all2_induct) auto

lemma headlessUpdateAll_kept: "nanKept bs (fst (headlessUpdateAll rand bs c))"
proof (induction bs arbitrary: c)
  case Nil
  then show ?case by simp
next
  case (Cons b bs)
  obtain b' c1 where u: "headlessUpdate rand b c = (b', c1)" by (cases "headlessUpdate rand b c")
  obtain bs' c2 where r: "headlessUpdateAll rand bs c1 = (bs', c2)"
    by (cases "headlessUpdateAll rand bs c1")
  have "posNaN b \<longrightarrow> posNaN b'" using headlessUpdate_NaN[of b rand c] by (simp add: u)
  moreover have "nanKept bs bs'" using Cons.IH[of c1] by (simp add: r)
  ultimately show ?case by (simp add: u r)
qed

lemma headlessCollide_NaN: "posNaN b1 \<or> posNaN b2 \<Longrightarrow> headlessCollide b1 b2 = (b1, b2)"
  by (auto simp: posNaN_def headlessCollide_def Let_def)

lemma collideAt_kept: "nanKept bs (collideAt headlessCollide i j bs)"
proof (cases "posNaN (bs ! i) \<or> posNaN (bs ! j)")
  case True
  then have "collideAt headlessCollide i j bs = bs"
    by (simp add: collideAt_def headlessCollide_NaN)
  then show ?thesis by (simp add: nanKept_refl)
next
  case False
  obtain c1 c2 where r: "headlessCollide (bs ! i) (bs ! j) = (c1, c2)"
    by (cases "headlessCollide (bs ! i) (bs ! j)")
  have "nanKept bs (bs[i := c1, j := c2])"
    unfolding list_all2_conv_all_nth
  proof (intro conjI allI impI)
    fix k assume "k < length bs" "posNaN (bs ! k)"
    then have "k \<noteq> i" "k \<noteq> j" using False by auto
    then show "posNaN (bs[i := c1, j := c2] ! k)" using \<open>posNaN (bs ! k)\<close> by simp
  qed simp
  then show ?thesis by (simp add: collideAt_def r)
qed

lemma fold_collideAt_kept: "nanKept bs (fold (collideAt headlessCollide i) js bs)"
proof (induction js arbitrary: bs)
  case Nil
  then show ?case by (simp add: nanKept_refl)
next
  case (Cons j js)
  have "nanKept bs (collideAt headlessCollide i j bs)" by (rule collideAt_kept)
  moreover have "nanKept (collideAt headlessCollide i j bs)
                   (fold (collideAt headlessCollide i) js (collideAt headlessCollide i j bs))"
    by (rule Cons.IH)
  ultimately show ?case by (simp add: nanKept_trans)
qed

lemma allPairs_kept: "nanKept bs (allPairs headlessCollide bs)"
proof -
  have "nanKept bs (fold (\<lambda>i bs1. fold (collideAt headlessCollide i) [Suc i..<n] bs1) is bs)" for n "is"
  proof (induction "is" arbitrary: bs)
    case Nil
    then show ?case by (simp add: nanKept_refl)
  next
    case (Cons i "is")
    have "nanKept bs (fold (collideAt headlessCollide i) [Suc i..<n] bs)" by (rule fold_collideAt_kept)
    then show ?case using Cons.IH nanKept_trans by fastforce
  qed
  then show ?thesis by (simp add: allPairs_def)
qed

lemma headlessStep_count: "finiteCount (fst (headlessStep rand bc)) \<le> finiteCount (fst bc)"
proof -
  obtain bs c where u: "headlessUpdateAll rand (fst bc) (snd bc) = (bs, c)"
    by (cases "headlessUpdateAll rand (fst bc) (snd bc)")
  have "nanKept (fst bc) bs" using headlessUpdateAll_kept[of "fst bc" rand "snd bc"] by (simp add: u)
  then have "nanKept (fst bc) (allPairs headlessCollide bs)"
    using allPairs_kept nanKept_trans by blast
  then show ?thesis by (simp add: headlessStep_def u nanKept_count)
qed

lemma headlessSteps_count: "finiteCount (fst ((headlessStep rand ^^ n) bc)) \<le> finiteCount (fst bc)"
proof (induction n)
  case 0
  then show ?case by simp
next
  case (Suc n)
  have "finiteCount (fst (headlessStep rand ((headlessStep rand ^^ n) bc)))
          \<le> finiteCount (fst ((headlessStep rand ^^ n) bc))"
    by (rule headlessStep_count)
  with Suc show ?case by simp
qed

lemma inSuctionSq_finite: "inSuctionSq b \<Longrightarrow> \<not> posNaN b"
  by (auto simp: inSuctionSq_def posNaN_def Let_def)

lemma finiteCount_removeAt:
  assumes "i < length bs" and "\<not> posNaN (bs ! i)"
  shows "Suc (finiteCount (removeAt i bs)) = finiteCount bs"
proof -
  have "bs = take i bs @ bs ! i # drop (Suc i) bs" using assms(1) by (rule split_at)
  then have "finiteCount bs = finiteCount (take i bs @ bs ! i # drop (Suc i) bs)" by simp
  also have "\<dots> = Suc (finiteCount (removeAt i bs))"
    using assms(2) by (simp add: finiteCount_def removeAt_def)
  finally show ?thesis by simp
qed

lemma extractionAttempt_measure: "stallMeasure (extractionAttempt st) = stallMeasure st"
proof (cases "firstIndex inSuctionSq (balls st)")
  case None
  then show ?thesis by (simp add: extractionAttempt_def)
next
  case (Some i)
  then have "i < length (balls st)" "\<not> posNaN (balls st ! i)"
    using firstIndex_Some[of inSuctionSq "balls st" i] inSuctionSq_finite by auto
  then have "Suc (finiteCount (removeAt i (balls st))) = finiteCount (balls st)"
    by (rule finiteCount_removeAt)
  then show ?thesis using Some by (simp add: extractionAttempt_def stallMeasure_def)
qed

lemma headlessCycle_measure: "stallMeasure (headlessCycle rand st) \<le> stallMeasure st"
proof -
  obtain bs c where s: "(headlessStep rand ^^ STEPS_PER_EXTRACTION) (balls st, calls st) = (bs, c)"
    by (cases "(headlessStep rand ^^ STEPS_PER_EXTRACTION) (balls st, calls st)")
  have "finiteCount bs \<le> finiteCount (balls st)"
    using headlessSteps_count[where rand = rand and n = STEPS_PER_EXTRACTION and bc = "(balls st, calls st)"] by (simp add: s)
  then have "stallMeasure (st\<lparr>balls := bs, calls := c\<rparr>) \<le> stallMeasure st"
    by (simp add: stallMeasure_def)
  then show ?thesis by (simp add: headlessCycle_def s extractionAttempt_measure)
qed

lemma safetyBreak_False: "safetyBreak sel = False"
  by (simp add: safetyBreak_def safetyThreshold_def STEPS_PER_EXTRACTION_def)

lemma headlessLoop_stalls:
  "stallMeasure st < TOTAL_DRAW_COUNT \<Longrightarrow> headlessLoop fuel rand st = None"
proof (induction fuel arbitrary: st)
  case 0
  then show ?case by (simp add: stallMeasure_def)
next
  case (Suc fuel)
  have "stallMeasure (headlessCycle rand st) < TOTAL_DRAW_COUNT"
    using headlessCycle_measure[of rand st] Suc.prems by simp
  then have "headlessLoop fuel rand (headlessCycle rand st) = None" by (rule Suc.IH)
  moreover have "length (selected st) < TOTAL_DRAW_COUNT" using Suc.prems by (simp add: stallMeasure_def)
  ultimately show ?case by (simp add: Let_def safetyBreak_False)
qed

lemma headlessLoop_first_cycle:
  assumes "selected st = []" and "stallMeasure (headlessCycle rand st) < TOTAL_DRAW_COUNT"
  shows "headlessLoop fuel rand st = None"
proof (cases fuel)
  case 0
  then show ?thesis using assms(1) by (simp add: TOTAL_DRAW_COUNT_def)
next
  case (Suc n)
  have "headlessLoop n rand (headlessCycle rand st) = None"
    using assms(2) by (rule headlessLoop_stalls)
  then show ?thesis using Suc assms(1) by (simp add: Let_def safetyBreak_False TOTAL_DRAW_COUNT_def)
qed

lemma headlessBall_zero:
  "headlessBall (\<lambda>k. 0) c i =
     \<lparr>ball_id = i, ball_x = Fin 300, ball_y = Fin 200, vx = Fin (- (15 / 2)), vy = Fin (- (15 / 2)),
      radius = Fin 10, mass = Fin 1, elasticity = Fin (85 / 100), friction = Fin (99 / 100)\<rparr>"
  by (simp add: headlessBall_def centerX_def centerY_def SIM_CANVAS_WIDTH_def SIM_CANVAS_HEIGHT_def)

lemma sqrt_below: "0 \<le> a \<Longrightarrow> a \<le> b * b \<Longrightarrow> 0 \<le> b \<Longrightarrow> sqrt a \<le> b"
  using real_le_lsqrt[where x = a and y = b] by (simp add: power2_eq_square)

lemma headlessUpdate_zero:
  "headlessUpdate (\<lambda>k. 0) (headlessBall (\<lambda>k. 0) c i) c' =
     (\<lparr>ball_id = i, ball_x = Fin (300 - 7425 / 1000), ball_y = Fin (200 - 7128 / 1000),
       vx = Fin (- (7425 / 1000)), vy = Fin (- (7128 / 1000)),
       radius = Fin 10, mass = Fin 1, elasticity = Fin (85 / 100), friction = Fin (99 / 100)\<rparr>, c')"
proof -
  have "sqrt ((7425 / 1000) * (7425 / 1000) + (7128 / 1000) * (7128 / 1000)) \<le> (170::real)"
    by (rule sqrt_below) simp_all
  then have w: "\<not> sqrt ((7425 / 1000) * (7425 / 1000) + (7128 / 1000) * (7128 / 1000)) + 10 > (180::real)"
    by simp
  show ?thesis
    using w
    apply (simp add: headlessBall_zero headlessUpdate_def applyGravity_def headlessJet_def
        applyFriction_def moveBall_def headlessWall_def Let_def headlessGravity_def
        centerX_def centerY_def drumR_def SIM_CANVAS_WIDTH_def SIM_CANVAS_HEIGHT_def SIM_DRUM_RADIUS_def)
    done
qed

lemma clone_collide:
  assumes "clone X Y b1" and "clone X Y b2"
  shows "posNaN (fst (headlessCollide b1 b2)) \<and> posNaN (snd (headlessCollide b1 b2))"
  using assms by (simp add: clone_def headlessCollide_def posNaN_def Let_def)

lemma collideAt_length [simp]: "length (collideAt resolve i j bs) = length bs"
  by (simp add: collideAt_def split: prod.splits)

lemma fold_collideAt_length [simp]: "length (fold (collideAt resolve i) js bs) = length bs"
  by (induction js arbitrary: bs) simp_all

lemma collideAt_noop: "posNaN (bs ! i) \<Longrightarrow> collideAt headlessCollide i j bs = bs"
  by (simp add: collideAt_def headlessCollide_NaN)

lemma inner_noop: "posNaN (bs ! i) \<Longrightarrow> fold (collideAt headlessCollide i) js bs = bs"
  by (induction js) (simp_all add: collideAt_noop)

lemma inner_first:
  assumes c: "cloneFrom i X Y bs" and n: "Suc i < length bs"
  shows "cloneFrom (Suc (Suc i)) X Y (fold (collideAt headlessCollide i) [Suc i..<length bs] bs)"
proof -
  obtain c1 c2 where r: "headlessCollide (bs ! i) (bs ! Suc i) = (c1, c2)"
    by (cases "headlessCollide (bs ! i) (bs ! Suc i)")
  have "clone X Y (bs ! i)" "clone X Y (bs ! Suc i)"
    using c n by (auto simp: cloneFrom_def)
  from clone_collide[OF this] have nan: "posNaN c1" "posNaN c2" by (simp_all add: r)
  let ?bs1 = "bs[i := c1, Suc i := c2]"
  have first: "collideAt headlessCollide i (Suc i) bs = ?bs1" by (simp add: collideAt_def r)
  have "?bs1 ! i = c1" using n by simp
  then have rest: "fold (collideAt headlessCollide i) [Suc (Suc i)..<length bs] ?bs1 = ?bs1"
    using nan(1) by (intro inner_noop) simp
  have "[Suc i..<length bs] = Suc i # [Suc (Suc i)..<length bs]"
    using n by (simp add: upt_conv_Cons)
  then have "fold (collideAt headlessCollide i) [Suc i..<length bs] bs = ?bs1"
    using first rest by simp
  moreover have "cloneFrom (Suc (Suc i)) X Y ?bs1"
    unfolding cloneFrom_def
  proof (intro allI impI)
    fix k assume k: "k < length ?bs1"
    consider "k < i" | "k = i" | "k = Suc i" | "Suc i < k" by linarith
    then show "if k < Suc (Suc i) then posNaN (?bs1 ! k) else clone X Y (?bs1 ! k)"
    proof cases
      case 1
      then have "?bs1 ! k = bs ! k" by simp
      moreover have "posNaN (bs ! k)" using c k 1 by (auto simp: cloneFrom_def)
      ultimately show ?thesis using 1 by simp
    next
      case 2
      then show ?thesis using n nan by simp
    next
      case 3
      then show ?thesis using n nan by simp
    next
      case 4
      then have "?bs1 ! k = bs ! k" by simp
      moreover have "clone X Y (bs ! k)" using c k 4 by (auto simp: cloneFrom_def)
      ultimately show ?thesis using 4 by simp
    qed
  qed
  ultimately show ?thesis by simp
qed

lemma outer_clones:
  "cloneFrom m X Y bs \<Longrightarrow> length bs = n \<Longrightarrow> i \<le> m \<Longrightarrow> i \<le> n \<Longrightarrow>
   \<exists>m'. n \<le> Suc m' \<and>
        cloneFrom m' X Y (fold (\<lambda>i bs1. fold (collideAt headlessCollide i) [Suc i..<n] bs1) [i..<n] bs)"
proof (induction "n - i" arbitrary: i m bs)
  case 0
  then have "i = n" by simp
  then have "n \<le> Suc m" using "0.prems"(3) by simp
  moreover have "fold (\<lambda>i bs1. fold (collideAt headlessCollide i) [Suc i..<n] bs1) [i..<n] bs = bs"
    using \<open>i = n\<close> by simp
  ultimately show ?case using "0.prems"(1) by auto
next
  case (Suc d)
  then have lt: "i < n" by simp
  let ?inner = "fold (collideAt headlessCollide i) [Suc i..<n] bs"
  have unroll: "fold (\<lambda>i bs1. fold (collideAt headlessCollide i) [Suc i..<n] bs1) [i..<n] bs
        = fold (\<lambda>i bs1. fold (collideAt headlessCollide i) [Suc i..<n] bs1) [Suc i..<n] ?inner"
    using lt by (simp add: upt_conv_Cons)
  have d: "d = n - Suc i" using Suc.hyps(2) by simp
  show ?case
  proof (cases "i < m")
    case True
    then have "posNaN (bs ! i)" using Suc.prems(1,2) lt by (auto simp: cloneFrom_def)
    then have "?inner = bs" by (rule inner_noop)
    moreover have "\<exists>m'. n \<le> Suc m' \<and>
        cloneFrom m' X Y (fold (\<lambda>i bs1. fold (collideAt headlessCollide i) [Suc i..<n] bs1) [Suc i..<n] bs)"
      using Suc.hyps(1)[OF d Suc.prems(1,2)] True lt by simp
    ultimately show ?thesis using unroll by simp
  next
    case False
    then have mi: "m = i" using Suc.prems(3) by simp
    show ?thesis
    proof (cases "Suc i < n")
      case True
      have "cloneFrom (Suc (Suc i)) X Y ?inner"
        using inner_first[of i X Y bs] Suc.prems(1,2) True mi by simp
      moreover have "length ?inner = n" using Suc.prems(2) by simp
      ultimately have "\<exists>m'. n \<le> Suc m' \<and>
        cloneFrom m' X Y (fold (\<lambda>i bs1. fold (collideAt headlessCollide i) [Suc i..<n] bs1) [Suc i..<n] ?inner)"
        using Suc.hyps(1)[OF d, of "Suc (Suc i)" ?inner] True by simp
      then show ?thesis using unroll by simp
    next
      case False
      then have "Suc i = n" using lt by simp
      then have "fold (\<lambda>i bs1. fold (collideAt headlessCollide i) [Suc i..<n] bs1) [i..<n] bs = bs"
        using unroll by simp
      then show ?thesis using Suc.prems(1) mi \<open>Suc i = n\<close> by auto
    qed
  qed
qed

lemma cloneFrom_count:
  assumes "cloneFrom m X Y bs" and "length bs \<le> Suc m"
  shows "finiteCount bs \<le> 1"
proof (cases bs rule: rev_cases)
  case Nil
  then show ?thesis by (simp add: finiteCount_def)
next
  case (snoc init b)
  have "\<forall>k<length init. posNaN (init ! k)"
  proof (intro allI impI)
    fix k assume k: "k < length init"
    then have "k < m" using assms(2) snoc by simp
    moreover have "k < length bs" using k snoc by simp
    ultimately have "posNaN (bs ! k)" using assms(1) by (auto simp: cloneFrom_def)
    then show "posNaN (init ! k)" using k snoc by (simp add: nth_append)
  qed
  then have "filter (\<lambda>b. \<not> posNaN b) init = []"
    by (auto simp: filter_empty_conv in_set_conv_nth)
  then show ?thesis using snoc by (simp add: finiteCount_def)
qed

lemma allPairs_clones:
  assumes "cloneFrom 0 X Y bs"
  shows "finiteCount (allPairs headlessCollide bs) \<le> 1"
proof -
  let ?n = "length bs"
  from outer_clones[OF assms refl, of 0] obtain m' where
    m': "?n \<le> Suc m'" "cloneFrom m' X Y (allPairs headlessCollide bs)"
    by (auto simp: allPairs_def)
  have "length (allPairs headlessCollide bs) = ?n"
    using allPairs_ids[OF headlessCollide_ids, of bs] map_eq_imp_length_eq by blast
  then show ?thesis using cloneFrom_count[OF m'(2)] m'(1) by simp
qed

lemma headlessUpdateAll_zero:
  "headlessUpdateAll (\<lambda>k. 0) (map (\<lambda>i. headlessBall (\<lambda>k. 0) (f i) i) ids) c
     = (map afterFirstUpdate ids, c)"
  by (induction ids) (simp_all add: headlessUpdate_zero afterFirstUpdate_def)

lemma headlessStep_zero:
  "finiteCount (fst (headlessStep (\<lambda>k. 0) (headlessSetup (\<lambda>k. 0), c))) \<le> 1"
proof -
  have "cloneFrom 0 (300 - 7425 / 1000) (200 - 7128 / 1000) (map afterFirstUpdate ids)" for ids
    by (simp add: cloneFrom_def clone_def afterFirstUpdate_def)
  then have "finiteCount (allPairs headlessCollide (map afterFirstUpdate ids)) \<le> 1" for ids
    by (rule allPairs_clones)
  then show ?thesis
    by (simp add: headlessStep_def headlessSetup_def headlessUpdateAll_zero del: upt_Suc)
qed

text \<open>
  What does hold of the headless run: it throws no \<^verbatim>\<open>TypeError\<close>; a result it returns
  consists of \<open>TOTAL_DRAW_COUNT\<close> pairwise distinct ids of \<open>1..45\<close>; and the main loop is
  left after \<open>n\<close> turns once \<open>n\<close> cycles of physics and extraction have selected
  \<open>TOTAL_DRAW_COUNT\<close> balls.
\<close>

lemma headlessJet_id [simp]: "ball_id (fst (headlessJet rand b c)) = ball_id b"
  by (simp add: headlessJet_def Let_def)

lemma headlessWall_id [simp]: "ball_id (headlessWall b) = ball_id b"
  by (simp add: headlessWall_def Let_def)

lemma headlessUpdate_id [simp]: "ball_id (fst (headlessUpdate rand b c)) = ball_id b"
proof -
  obtain b1 c' where j: "headlessJet rand (applyGravity (Fin headlessGravity) b) c = (b1, c')"
    by (cases "headlessJet rand (applyGravity (Fin headlessGravity) b) c")
  have "ball_id b1 = ball_id (fst (headlessJet rand (applyGravity (Fin headlessGravity) b) c))"
    by (simp add: j)
  then have "ball_id b1 = ball_id b" by simp
  then show ?thesis by (simp add: headlessUpdate_def j)
qed

lemma headlessUpdateAll_ids: "map ball_id (fst (headlessUpdateAll rand bs c)) = map ball_id bs"
proof (induction bs arbitrary: c)
  case Nil
  then show ?case by simp
next
  case (Cons b bs)
  obtain b' c1 where u: "headlessUpdate rand b c = (b', c1)" by (cases "headlessUpdate rand b c")
  obtain bs' c2 where r: "headlessUpdateAll rand bs c1 = (bs', c2)"
    by (cases "headlessUpdateAll rand bs c1")
  have "ball_id b' = ball_id (fst (headlessUpdate rand b c))" by (simp add: u)
  then have "ball_id b' = ball_id b" by simp
  moreover have "map ball_id bs' = map ball_id bs" using Cons.IH[of c1] by (simp add: r)
  ultimately show ?case by (simp add: u r)
qed

lemma headlessStep_ids: "map ball_id (fst (headlessStep rand bc)) = map ball_id (fst bc)"
proof -
  obtain bs c where u: "headlessUpdateAll rand (fst bc) (snd bc) = (bs, c)"
    by (cases "headlessUpdateAll rand (fst bc) (snd bc)")
  have "map ball_id bs = map ball_id (fst bc)"
    using headlessUpdateAll_ids[of rand "fst bc" "snd bc"] by (simp add: u)
  then show ?thesis by (simp add: headlessStep_def u allPairs_ids[OF headlessCollide_ids])
qed

lemma headlessSteps_ids: "map ball_id (fst ((headlessStep rand ^^ n) bc)) = map ball_id (fst bc)"
  by (induction n) (simp_all add: headlessStep_ids)

lemma set_move:
  assumes "i < length ids"
  shows "set ((sel @ [ids ! i]) @ removeAt i ids) = set (sel @ ids)"
proof -
  have "set (take i ids @ ids ! i # drop (Suc i) ids) = set ids"
    by (simp only: id_take_nth_drop[OF assms, symmetric])
  then have "set (take i ids) \<union> {ids ! i} \<union> set (drop (Suc i) ids) = set ids" by auto
  then show ?thesis by (auto simp: removeAt_def)
qed

lemma extractionAttempt_invariant:
  assumes "headlessInvariant st" and "length (selected st) < TOTAL_DRAW_COUNT"
  shows "headlessInvariant (extractionAttempt st)"
proof (cases "firstIndex inSuctionSq (balls st)")
  case None
  then show ?thesis using assms by (simp add: extractionAttempt_def)
next
  case (Some i)
  then have i: "i < length (map ball_id (balls st))" by (simp add: firstIndex_Some)
  have e: "extractionAttempt st
        = st\<lparr>selected := selected st @ [map ball_id (balls st) ! i], balls := removeAt i (balls st)\<rparr>"
    using Some i by (simp add: extractionAttempt_def)
  have "distinct ((selected st @ [map ball_id (balls st) ! i]) @ removeAt i (map ball_id (balls st)))"
    using assms(1) i by (intro distinct_move) (simp_all add: headlessInvariant_def)
  moreover have "set ((selected st @ [map ball_id (balls st) ! i]) @ removeAt i (map ball_id (balls st)))
        = {1..TOTAL_NUMBERS}"
    using assms(1) set_move[OF i] by (simp add: headlessInvariant_def)
  ultimately show ?thesis using assms(2) by (simp add: e headlessInvariant_def map_removeAt)
qed

lemma headlessCycle_invariant:
  assumes "headlessInvariant st" and "length (selected st) < TOTAL_DRAW_COUNT"
  shows "headlessInvariant (headlessCycle rand st)"
proof -
  obtain bs c where s: "(headlessStep rand ^^ STEPS_PER_EXTRACTION) (balls st, calls st) = (bs, c)"
    by (cases "(headlessStep rand ^^ STEPS_PER_EXTRACTION) (balls st, calls st)")
  have "map ball_id bs = map ball_id (balls st)"
    using headlessSteps_ids[where rand = rand and n = STEPS_PER_EXTRACTION and bc = "(balls st, calls st)"]
    by (simp add: s)
  then have "headlessInvariant (st\<lparr>balls := bs, calls := c\<rparr>)"
    using assms(1) by (simp add: headlessInvariant_def)
  then have "headlessInvariant (extractionAttempt (st\<lparr>balls := bs, calls := c\<rparr>))"
    using assms(2) by (intro extractionAttempt_invariant) simp_all
  then show ?thesis by (simp add: headlessCycle_def s)
qed

lemma headlessLoop_invariant:
  "headlessInvariant st \<Longrightarrow> headlessLoop fuel rand st = Some st' \<Longrightarrow>
   headlessInvariant st' \<and> length (selected st') = TOTAL_DRAW_COUNT"
proof (induction fuel arbitrary: st)
  case 0
  then show ?case by (auto simp: headlessInvariant_def split: if_splits)
next
  case (Suc fuel)
  show ?case
  proof (cases "length (selected st) < TOTAL_DRAW_COUNT")
    case True
    have "headlessInvariant (headlessCycle rand st)"
      using Suc.prems(1) True by (rule headlessCycle_invariant)
    moreover have "headlessLoop fuel rand (headlessCycle rand st) = Some st'"
      using Suc.prems(2) True by (simp add: Let_def safetyBreak_False)
    ultimately show ?thesis by (rule Suc.IH)
  next
    case False
    then show ?thesis using Suc.prems by (auto simp: headlessInvariant_def)
  qed
qed

lemma headlessSetup_invariant:
  "headlessInvariant \<lparr>balls = headlessSetup rand, selected = [], calls = c\<rparr>"
proof -
  have "map ball_id (headlessSetup rand) = [1..<Suc TOTAL_NUMBERS]"
    by (simp add: headlessSetup_def headlessBall_def Let_def comp_def del: upt_Suc)
  then show ?thesis by (auto simp: headlessInvariant_def simp del: upt_Suc)
qed

lemma runHeadlessSimulation_sound:
  "runHeadlessSimulation fuel rand \<noteq> TypeError"
  "runHeadlessSimulation fuel rand = Returned r \<Longrightarrow>
     length r = TOTAL_DRAW_COUNT \<and> distinct r \<and> set r \<subseteq> {1..TOTAL_NUMBERS}"
proof -
  let ?st = "\<lparr>balls = headlessSetup rand, selected = [], calls = 4 * TOTAL_NUMBERS\<rparr>"
  have fin: "headlessInvariant st' \<and> length (selected st') = TOTAL_DRAW_COUNT \<and> fillLoop rand st' = Some st'"
    if "headlessLoop fuel rand ?st = Some st'" for st'
  proof -
    from headlessLoop_invariant[OF headlessSetup_invariant that]
    have i: "headlessInvariant st'" "length (selected st') = TOTAL_DRAW_COUNT" by simp_all
    then have "fillLoop rand st' = Some st'" by (simp add: fillLoop.simps[of rand st'])
    with i show ?thesis by simp
  qed
  show "runHeadlessSimulation fuel rand \<noteq> TypeError"
    using fin by (auto simp: runHeadlessSimulation_def split: option.splits)
  show "length r = TOTAL_DRAW_COUNT \<and> distinct r \<and> set r \<subseteq> {1..TOTAL_NUMBERS}"
    if "runHeadlessSimulation fuel rand = Returned r"
  proof -
    from that obtain st' where l: "headlessLoop fuel rand ?st = Some st'" and r: "r = selected st'"
      using fin by (auto simp: runHeadlessSimulation_def split: option.splits)
    from fin[OF l] show ?thesis by (auto simp: r headlessInvariant_def)
  qed
qed

lemma headlessLoop_returns:
  "TOTAL_DRAW_COUNT \<le> length (selected ((headlessCycle rand ^^ n) st)) \<Longrightarrow>
   \<exists>st'. headlessLoop n rand st = Some st'"
proof (induction n arbitrary: st)
  case 0
  then show ?case by simp
next
  case (Suc n)
  show ?case
  proof (cases "length (selected st) < TOTAL_DRAW_COUNT")
    case True
    have "(headlessCycle rand ^^ Suc n) st = (headlessCycle rand ^^ n) (headlessCycle rand st)"
      by (simp only: funpow_Suc_right o_apply)
    then have "\<exists>st'. headlessLoop n rand (headlessCycle rand st) = Some st'"
      using Suc.prems by (intro Suc.IH) simp
    then show ?thesis using True by (simp add: Let_def safetyBreak_False)
  next
    case False
    then show ?thesis by simp
  qed
qed

text \<open>
  Claim C1 fails on the code.  When every call of \<^verbatim>\<open>Math.random()\<close> returns 0, all 45
  balls start at the centre of the drum with the same velocity.  The first collision
  pass divides \<open>0 / 0\<close> for the pairs (1,2), (3,4), ..., (43,44), whose positions are
  \<^verbatim>\<open>NaN\<close> from then on, so at most one ball can ever pass the suction test.  The safety
  break is never taken and the fill loop is never reached: the main loop is still
  running after any number of turns.
\<close>

theorem headless_zero_random_never_returns:
  "runHeadlessSimulation fuel (\<lambda>k. 0) = StillRunning"
proof -
  let ?rand = "\<lambda>k::nat. 0::real"
  let ?start = "(headlessSetup ?rand, 4 * TOTAL_NUMBERS)"
  let ?st = "\<lparr>balls = headlessSetup ?rand, selected = [], calls = 4 * TOTAL_NUMBERS\<rparr>"
  obtain bs c where s: "(headlessStep ?rand ^^ STEPS_PER_EXTRACTION) ?start = (bs, c)"
    by (cases "(headlessStep ?rand ^^ STEPS_PER_EXTRACTION) ?start")
  have e: "STEPS_PER_EXTRACTION = Suc 29" by (simp add: STEPS_PER_EXTRACTION_def)
  have u: "(headlessStep ?rand ^^ STEPS_PER_EXTRACTION) ?start
             = (headlessStep ?rand ^^ 29) (headlessStep ?rand ?start)"
    by (simp only: e funpow_Suc_right o_apply)
  have "finiteCount (fst ((headlessStep ?rand ^^ STEPS_PER_EXTRACTION) ?start))
          \<le> finiteCount (fst (headlessStep ?rand ?start))"
    unfolding u by (rule headlessSteps_count)
  then have "finiteCount bs \<le> finiteCount (fst (headlessStep ?rand ?start))"
    unfolding s by simp
  also have "\<dots> \<le> 1" by (rule headlessStep_zero)
  finally have "stallMeasure (?st\<lparr>balls := bs, calls := c\<rparr>) \<le> 1"
    by (simp add: stallMeasure_def)
  moreover have "headlessCycle ?rand ?st = extractionAttempt (?st\<lparr>balls := bs, calls := c\<rparr>)"
    by (simp add: headlessCycle_def s)
  ultimately have "stallMeasure (headlessCycle ?rand ?st) < TOTAL_DRAW_COUNT"
    by (simp add: extractionAttempt_measure TOTAL_DRAW_COUNT_def)
  then have "headlessLoop fuel ?rand ?st = None"
    by (intro headlessLoop_first_cycle) simp_all
  then show ?thesis by (simp add: runHeadlessSimulation_def)
qed

end
